theory Spec2Isabelle
  imports Complex_Main "HOL-Library.Word" "HOL-Library.Monad_Syntax"
begin

unbundle bit_operations_syntax

section \<open>IEEE-754 binary64 values as bit patterns\<close>

text \<open>
  A \<open>double\<close> is modelled by its raw 64-bit pattern, which is what
  \<open>mozilla::BitwiseCast<uint64_t>(d)\<close> hands to the conversion code: one sign bit
  (bit 63), eleven biased-exponent bits (bits 62..52) and 52 significand bits.
\<close>

type_synonym double = "64 word"

text \<open>
  Modelled from the spec: the constants of \<open>mozilla::FloatingPoint<double>\<close>
  (\<open>mozilla/FloatingPoint.h\<close> is not among the sources). The spec fixes the exponent
  shift at 52 and the bias at 1023; the masks are the IEEE-754 binary64 field masks.
\<close>

definition SignBit :: "64 word" where
  "SignBit = 0x8000000000000000"

definition ExponentBits :: "64 word" where
  "ExponentBits = 0x7FF0000000000000"

definition SignificandBits :: "64 word" where
  "SignificandBits = 0x000FFFFFFFFFFFFF"

definition ExponentShift :: nat where
  "ExponentShift = 52"

definition ExponentBias :: int where
  "ExponentBias = 1023"

text \<open>
  Modelled from the spec: \<open>mozilla::BitwiseCast<uint64_t>\<close> (\<open>mozilla/Casting.h\<close>
  is not among the sources) reinterprets the eight bytes of the double as an unsigned
  64-bit integer; on the bit-pattern model it is the identity.
\<close>

definition BitwiseCast :: "double \<Rightarrow> 64 word" where
  "BitwiseCast d = d"

subsection \<open>Fields, classification and the real value of a double\<close>

definition sign_bit :: "double \<Rightarrow> bool" where
  "sign_bit d \<longleftrightarrow> d AND SignBit \<noteq> 0"

definition biased_exponent :: "double \<Rightarrow> nat" where
  "biased_exponent d = unat (drop_bit ExponentShift (d AND ExponentBits))"

definition significand :: "double \<Rightarrow> nat" where
  "significand d = unat (d AND SignificandBits)"

text \<open>
  Modelled from the spec: \<open>mozilla::IsNaN\<close>, \<open>mozilla::IsInfinite\<close> and
  \<open>mozilla::IsFinite\<close> (\<open>mozilla/FloatingPoint.h\<close> is not among the sources).
  A double is non-finite when its exponent field is all ones; it is a NaN when, in
  addition, its significand field is not zero.
\<close>

definition IsNaN :: "double \<Rightarrow> bool" where
  "IsNaN d \<longleftrightarrow>
     d AND ExponentBits = ExponentBits \<and> d AND SignificandBits \<noteq> 0"

definition IsInfinite :: "double \<Rightarrow> bool" where
  "IsInfinite d \<longleftrightarrow> d AND NOT SignBit = ExponentBits"

definition IsFinite :: "double \<Rightarrow> bool" where
  "IsFinite d \<longleftrightarrow> d AND ExponentBits \<noteq> ExponentBits"

text \<open>
  The real number a finite double stands for. With \<open>E\<close> the biased exponent and
  \<open>m\<close> the significand field, a normal double (\<open>E \<ge> 1\<close>) is
  \<open>\<plusminus> (2^52 + m) * 2^(E - 1075)\<close> and a zero or subnormal (\<open>E = 0\<close>) is
  \<open>\<plusminus> m * 2^(1 - 1075)\<close>. The value is only meaningful when \<open>IsFinite d\<close>.
\<close>

definition valof :: "double \<Rightarrow> real" where
  "valof d =
     (if sign_bit d then - 1 else 1) *
     real ((if biased_exponent d = 0 then significand d else 2 ^ 52 + significand d) *
           2 ^ max (biased_exponent d) 1) / 2 ^ 1075"

text \<open>
  The integer \<open>sign(x) * floor(|x|)\<close> of the comment above \<open>ToUintWidth\<close> and of
  the spec, written out on the reals.
\<close>

definition sign_floor_abs :: "real \<Rightarrow> int" where
  "sign_floor_abs x = (if x < 0 then - 1 else 1) * \<lfloor>\<bar>x\<bar>\<rfloor>"

subsection \<open>Shifts with the C++ precondition made explicit\<close>

text \<open>
  In C++ a shift by an amount that is not smaller than the width of the (promoted) left
  operand is undefined. The model returns \<open>None\<close> there, so that undefined behaviour
  is a value of the model and not hidden by the totality of \<open>push_bit\<close> and
  \<open>drop_bit\<close>.
\<close>

definition shl :: "'a::len word \<Rightarrow> nat \<Rightarrow> 'a word option" where
  "shl x n = (if n < LENGTH('a) then Some (push_bit n x) else None)"

definition shr :: "'a::len word \<Rightarrow> nat \<Rightarrow> 'a word option" where
  "shr x n = (if n < LENGTH('a) then Some (drop_bit n x) else None)"

section \<open>The unsigned modular converter\<close>

text \<open>
  \<open>decoded_exponent\<close> is the local \<open>exp\<close> of \<open>detail::ToUintWidth\<close>: the exponent
  field moved down by \<open>ExponentShift\<close>, minus the bias, in a signed type wide enough
  for the range \<open>-1023 .. 1024\<close>.
\<close>

definition decoded_exponent :: "64 word \<Rightarrow> int" where
  "decoded_exponent bits =
     int (unat (drop_bit ExponentShift (bits AND ExponentBits))) - ExponentBias"

text \<open>
  \<open>detail::ToUintWidth<ResultType>\<close>, with \<open>ResultType\<close> the unsigned type of
  \<open>LENGTH('a)\<close> bits. \<open>ucast\<close> is the conversion \<open>ResultType(...)\<close> of a 64-bit value,
  which keeps the low \<open>LENGTH('a)\<close> bits.
\<close>

definition ToUintWidth :: "double \<Rightarrow> 'a::len word option" where
  "ToUintWidth d =
     (let bits = BitwiseCast d;
          DoubleExponentShift = ExponentShift;
          exp = decoded_exponent bits
      in if exp < 0 then Some 0
         else
           let exponent = nat exp;
               ResultWidth = LENGTH('a)
           in if exponent \<ge> DoubleExponentShift + ResultWidth then Some 0
              else do {
                shifted \<leftarrow> (if exponent > DoubleExponentShift
                            then shl bits (exponent - DoubleExponentShift)
                            else shr bits (DoubleExponentShift - exponent));
                let result = (ucast shifted :: 'a word);
                masked \<leftarrow> (if exponent < ResultWidth
                           then do {
                             implicitOne \<leftarrow> shl (1 :: 'a word) exponent;
                             Some ((result AND (implicitOne - 1)) + implicitOne)
                           }
                           else Some result);
                Some (if bits AND SignBit \<noteq> 0 then NOT masked + 1 else masked)
              })"

definition ToUint32 :: "double \<Rightarrow> 32 word option" where
  "ToUint32 d = ToUintWidth d"

definition ToUint64 :: "double \<Rightarrow> 64 word option" where
  "ToUint64 d = ToUintWidth d"

section \<open>The signed modular converter\<close>

text \<open>
  Arithmetic on a signed C++ integer type is undefined when the mathematical result does
  not fit the type. A value of the signed \<open>ResultType\<close> is modelled by its
  two's-complement bit pattern, an \<open>'a word\<close> read with \<open>sint\<close>, and
  \<open>signed_result k\<close> is the outcome of a signed operation whose mathematical result
  is \<open>k\<close>: the pattern of \<open>k\<close> when \<open>k\<close> fits \<open>LENGTH('a)\<close> bits, and \<open>None\<close>
  (undefined behaviour) otherwise. The source instantiates the template at \<open>int32_t\<close>
  and \<open>int64_t\<close> only, for which the arithmetic is carried out at the width of
  \<open>ResultType\<close> itself.
\<close>

definition signed_result :: "int \<Rightarrow> 'a::len word option" where
  "signed_result k =
     (if - (2 ^ (LENGTH('a) - 1)) \<le> k \<and> k < 2 ^ (LENGTH('a) - 1)
      then Some (word_of_int k) else None)"

text \<open>
  \<open>detail::ToIntWidth<ResultType>\<close>. The comparison \<open>u <= UnsignedResult(MaxValue)\<close>
  and the subtraction \<open>u - MaxValue\<close> are unsigned. \<open>static_cast<ResultType>\<close> of an
  unsigned value keeps the value when it fits; for a value above \<open>MaxValue\<close> the
  conversion is implementation-defined and keeps the bit pattern on the compilers the
  source is built with, which is what the model does. The negation, the addition and
  the two subtractions of one are signed operations.
\<close>

definition ToIntWidth :: "double \<Rightarrow> 'a::len word option" where
  "ToIntWidth d =
     do {
       top \<leftarrow> shl (1 :: 64 word) (LENGTH('a) - 1);
       let MaxValue = (ucast (top - 1) :: 'a word);
       negMax \<leftarrow> (signed_result (- sint MaxValue) :: 'a word option);
       MinValue \<leftarrow> (signed_result (sint negMax - 1) :: 'a word option);
       u \<leftarrow> (ToUintWidth d :: 'a word option);
       if u \<le> MaxValue then Some u
       else do {
         sum \<leftarrow> (signed_result (sint MinValue + sint (u - MaxValue)) :: 'a word option);
         signed_result (sint sum - 1)
       }
     }"

text \<open>
  The portable branch of \<open>ToInt32\<close> (the \<open>#else\<close> of the inline-assembly
  alternative), and \<open>ToInt64\<close>.
\<close>

definition ToInt32 :: "double \<Rightarrow> 32 word option" where
  "ToInt32 d = ToIntWidth d"

definition ToInt64 :: "double \<Rightarrow> 64 word option" where
  "ToInt64 d = ToIntWidth d"

section \<open>ToInteger\<close>

subsection \<open>The floating-point primitives ToInteger uses\<close>

text \<open>
  The comparisons \<open>d == 0\<close> and \<open>d < 0\<close> of C++ on doubles: \<open>d == 0\<close> holds for
  both zeros and for nothing else; \<open>d < 0\<close> holds for the negative non-zero values
  including \<open>-Infinity\<close> and never for a NaN.
\<close>

definition double_eq_zero :: "double \<Rightarrow> bool" where
  "double_eq_zero d \<longleftrightarrow> d AND NOT SignBit = 0"

definition double_lt_zero :: "double \<Rightarrow> bool" where
  "double_lt_zero d \<longleftrightarrow> \<not> IsNaN d \<and> sign_bit d \<and> \<not> double_eq_zero d"

text \<open>\<open>+0.0\<close>, the double that \<open>return 0\<close> converts the integer zero to.\<close>

definition PositiveZero :: double where
  "PositiveZero = 0"

text \<open>
  \<open>ceil\<close> and \<open>floor\<close> come from \<open><math.h>\<close>, outside the repository. They are
  modelled on the bit pattern as IEC 60559 specifies them (round to an integral value
  towards plus or minus infinity, exactly, keeping the sign of the argument also when
  the result is a zero, returning an infinity unchanged and a NaN as a quiet NaN with
  the same sign and payload).

  \<open>trunc_bits\<close> clears the fraction bits of the significand, which rounds the magnitude
  down to an integer: below exponent 0 nothing but the sign is left; from exponent 52 on
  there are no fraction bits. \<open>round_away\<close> is the integral double next to
  \<open>trunc_bits d\<close> away from zero: one unit is added at the lowest integer bit of the
  significand, and a carry out of the significand field increments the exponent field.
\<close>

definition quiet :: "double \<Rightarrow> double" where
  "quiet d = d OR 0x0008000000000000"

definition trunc_bits :: "double \<Rightarrow> double" where
  "trunc_bits d =
     (let E = biased_exponent d
      in if E < 1023 then d AND SignBit
         else if 1075 \<le> E then d
         else d AND NOT (mask (1075 - E)))"

definition round_away :: "double \<Rightarrow> double" where
  "round_away d =
     (let E = biased_exponent d
      in if E < 1023 then (d AND SignBit) OR 0x3FF0000000000000
         else trunc_bits d + push_bit (1075 - E) 1)"

definition floor_double :: "double \<Rightarrow> double" where
  "floor_double d =
     (if IsNaN d then quiet d
      else if \<not> IsFinite d \<or> trunc_bits d = d then d
      else if sign_bit d then round_away d
      else trunc_bits d)"

definition ceil_double :: "double \<Rightarrow> double" where
  "ceil_double d =
     (if IsNaN d then quiet d
      else if \<not> IsFinite d \<or> trunc_bits d = d then d
      else if sign_bit d then trunc_bits d
      else round_away d)"

subsection \<open>The operation\<close>

definition ToInteger :: "double \<Rightarrow> double" where
  "ToInteger d =
     (if double_eq_zero d then d
      else if \<not> IsFinite d then (if IsNaN d then PositiveZero else d)
      else if double_lt_zero d then ceil_double d else floor_double d)"

section \<open>Bit fields of a double as arithmetic on its pattern\<close>

lemma ExponentBits_eq: "ExponentBits = push_bit 52 (mask 11)"
  by (simp add: ExponentBits_def mask_eq_exp_minus_1)

lemma SignificandBits_eq: "SignificandBits = mask 52"
  by (simp add: SignificandBits_def mask_eq_exp_minus_1)

lemma significand_nat: "significand d = unat d mod 2 ^ 52"
proof -
  have "unat (d AND mask 52) = take_bit 52 (unat d)"
    by (simp only: unsigned_take_bit_eq flip: take_bit_eq_mask)
  then show ?thesis
    by (simp only: significand_def SignificandBits_eq take_bit_eq_mod)
qed

lemma biased_exponent_nat: "biased_exponent d = (unat d div 2 ^ 52) mod 2 ^ 11"
proof -
  have "drop_bit 52 (d AND ExponentBits) = take_bit 11 (drop_bit 52 d)"
    unfolding ExponentBits_eq
    by (rule bit_eqI) (auto simp add: bit_simps)
  then have "biased_exponent d = take_bit 11 (drop_bit 52 (unat d))"
    unfolding biased_exponent_def ExponentShift_def
    by (simp only: unsigned_take_bit_eq unat_drop_bit_eq)
  then show ?thesis
    by (simp only: take_bit_eq_mod drop_bit_eq_div)
qed

lemma sign_bit_bit: "sign_bit d \<longleftrightarrow> bit d 63"
proof -
  have "d AND 2 ^ 63 = 0 \<longleftrightarrow> \<not> bit d 63"
    by (rule and_exp_eq_0_iff_not_bit)
  then show ?thesis by (simp add: sign_bit_def SignBit_def)
qed

lemma sign_bit_nat: "sign_bit d \<longleftrightarrow> unat d div 2 ^ 63 = 1"
proof -
  have "unat d < 2 ^ 64" using unsigned_less [of d] by simp
  then have "unat d div 2 ^ 63 < 2" by (simp add: less_mult_imp_div_less)
  moreover have "bit d 63 \<longleftrightarrow> bit (unat d) 63"
    by (simp add: bit_unsigned_iff)
  then have "bit d 63 \<longleftrightarrow> odd (unat d div 2 ^ 63)"
    by (simp only: bit_iff_odd) 
  ultimately show ?thesis unfolding sign_bit_bit
    by (cases "unat d div 2 ^ 63 = 0") auto
qed

lemma unat_fields:
  "unat d = (if sign_bit d then 2 ^ 63 else 0) + biased_exponent d * 2 ^ 52 + significand d"
proof -
  define n where "n = unat d"
  have n: "n < 2 ^ 64" unfolding n_def using unsigned_less [of d] by simp
  have "n div 2 ^ 52 = (n div 2 ^ 52 div 2 ^ 11) * 2 ^ 11 + (n div 2 ^ 52) mod 2 ^ 11"
    by simp
  also have "n div 2 ^ 52 div 2 ^ 11 = n div 2 ^ 63"
    by (simp add: div_mult2_eq [symmetric])
  finally have H: "n div 2 ^ 52 = (n div 2 ^ 63) * 2 ^ 11 + (n div 2 ^ 52) mod 2 ^ 11" .
  have "n = (n div 2 ^ 52) * 2 ^ 52 + n mod 2 ^ 52" by simp
  also have "\<dots> = ((n div 2 ^ 63) * 2 ^ 11 + (n div 2 ^ 52) mod 2 ^ 11) * 2 ^ 52 + n mod 2 ^ 52"
    using H by simp
  finally have "n = (n div 2 ^ 63) * 2 ^ 63 + ((n div 2 ^ 52) mod 2 ^ 11) * 2 ^ 52 + n mod 2 ^ 52"
    by (simp add: algebra_simps)
  moreover have "n div 2 ^ 63 < 2" using n by (simp add: less_mult_imp_div_less)
  ultimately show ?thesis
    unfolding sign_bit_nat biased_exponent_nat significand_nat n_def [symmetric]
    by (cases "n div 2 ^ 63 = 0") auto
qed


subsection \<open>Aligning the significand: arithmetic on the naturals\<close>

lemma pow2_split:
  fixes a b :: nat
  assumes "a \<le> b"
  shows "(2::nat) ^ b = 2 ^ a * 2 ^ (b - a)" and "(2::nat) ^ b = 2 ^ (b - a) * 2 ^ a"
  using assms by (simp_all add: power_add [symmetric])

lemma align_common:
  fixes H q e W :: nat
  assumes q: "q < 2 ^ e" and W: "W \<le> 64"
  defines "r \<equiv> (H * 2 ^ e + q) mod 2 ^ 64 mod 2 ^ W"
  shows "(if e < W then (r mod 2 ^ e + 2 ^ e) mod 2 ^ W else r) = (2 ^ e + q) mod 2 ^ W"
proof -
  have r: "r = (H * 2 ^ e + q) mod 2 ^ W"
    unfolding r_def using W by (intro mod_mod_cancel le_imp_power_dvd)
  show ?thesis
  proof (cases "e < W")
    case True
    then have "r mod 2 ^ e = (H * 2 ^ e + q) mod 2 ^ e"
      unfolding r by (intro mod_mod_cancel le_imp_power_dvd) simp
    also have "\<dots> = q" using q by simp
    finally show ?thesis using True by (simp add: add.commute)
  next
    case False
    then have "(2::nat) ^ W dvd 2 ^ e" by (simp add: le_imp_power_dvd)
    then have "(H * 2 ^ e + q) mod 2 ^ W = q mod 2 ^ W" "(2 ^ e + q) mod 2 ^ W = q mod 2 ^ W"
      by (simp_all add: mod_add_left_eq [symmetric] dvd_imp_mod_0)
    then show ?thesis using False r by simp
  qed
qed

lemma align_left:
  fixes H m k :: nat
  shows "(H * 2 ^ 52 + m) * 2 ^ k = H * 2 ^ (52 + k) + m * 2 ^ k"
  by (simp add: algebra_simps power_add)

lemma align_right:
  fixes H m e :: nat
  assumes "e \<le> 52"
  shows "(H * 2 ^ 52 + m) div 2 ^ (52 - e) = H * 2 ^ e + m div 2 ^ (52 - e)"
proof -
  have "(2::nat) ^ 52 = 2 ^ e * 2 ^ (52 - e)"
    using assms by (rule pow2_split)
  then have "H * 2 ^ 52 + m = m + (H * 2 ^ e) * 2 ^ (52 - e)"
    by (simp only: mult.assoc add.commute)
  then show ?thesis by (simp only: div_mult_self1) simp
qed


lemma aligned_value:
  fixes m e :: nat
  shows "(2 ^ 52 + m) * 2 ^ e div 2 ^ 52 =
         2 ^ e + (if e > 52 then m * 2 ^ (e - 52) else m div 2 ^ (52 - e))"
proof (cases "e > 52")
  case True
  then have "(2::nat) ^ e = 2 ^ (e - 52) * 2 ^ 52"
    by (intro pow2_split) simp
  then have "(2 ^ 52 + m) * 2 ^ e = ((2 ^ 52 + m) * 2 ^ (e - 52)) * 2 ^ 52"
    by (simp only: mult.assoc)
  then have "(2 ^ 52 + m) * 2 ^ e div 2 ^ 52 = (2 ^ 52 + m) * 2 ^ (e - 52)"
    by (simp only: nonzero_mult_div_cancel_right) simp
  also have "\<dots> = 2 ^ 52 * 2 ^ (e - 52) + m * 2 ^ (e - 52)"
    by (simp only: distrib_right)
  also have "(2::nat) ^ 52 * 2 ^ (e - 52) = 2 ^ e"
    using True by (intro pow2_split(1) [symmetric]) simp
  finally show ?thesis using True by simp
next
  case False
  then have e: "e \<le> 52" by simp
  then have p: "(2::nat) ^ 52 = 2 ^ (52 - e) * 2 ^ e"
    by (rule pow2_split)
  have "(2 ^ 52 + m) * 2 ^ e div 2 ^ 52 = (2 ^ 52 + m) * 2 ^ e div (2 ^ (52 - e) * 2 ^ e)"
    using p by simp
  also have "\<dots> = (2 ^ 52 + m) div 2 ^ (52 - e)"
    by (rule div_mult_mult2) simp
  also have "\<dots> = (1 * 2 ^ 52 + m) div 2 ^ (52 - e)" by simp
  also have "\<dots> = 1 * 2 ^ e + m div 2 ^ (52 - e)"
    using e by (rule align_right)
  finally show ?thesis using False by simp
qed

subsection \<open>The shift, the mask and the implicit bit on words\<close>

lemma magnitude_word:
  fixes d :: "64 word" and e :: nat
  assumes e: "e < 52 + LENGTH('a::len)" and W: "LENGTH('a) \<le> 64"
  defines "shifted \<equiv> if e > 52 then push_bit (e - 52) d else drop_bit (52 - e) d"
  defines "result \<equiv> (ucast shifted :: 'a word)"
  defines "masked \<equiv> if e < LENGTH('a)
                     then (result AND (push_bit e 1 - 1)) + push_bit e 1 else result"
  shows "unat masked = ((2 ^ 52 + unat d mod 2 ^ 52) * 2 ^ e div 2 ^ 52) mod 2 ^ LENGTH('a)"
proof -
  define n where "n = unat d"
  define H where "H = n div 2 ^ 52"
  define m where "m = n mod 2 ^ 52"
  define q where "q = (if e > 52 then m * 2 ^ (e - 52) else m div 2 ^ (52 - e))"
  have n: "n = H * 2 ^ 52 + m" unfolding H_def m_def by simp
  have m: "m < 2 ^ 52" unfolding m_def by simp
  have q: "q < 2 ^ e"
  proof (cases "e > 52")
    case True
    then have "(2::nat) ^ e = 2 ^ 52 * 2 ^ (e - 52)" by (intro pow2_split) simp
    moreover have "m * 2 ^ (e - 52) < 2 ^ 52 * 2 ^ (e - 52)"
      using m by (simp only: mult_less_cancel2) simp
    ultimately show ?thesis using True unfolding q_def by simp
  next
    case False
    then have "(2::nat) ^ 52 = 2 ^ e * 2 ^ (52 - e)" by (intro pow2_split) simp
    then have "m < 2 ^ e * 2 ^ (52 - e)" using m by (simp only:)
    then have "m div 2 ^ (52 - e) < 2 ^ e" by (simp add: less_mult_imp_div_less)
    then show ?thesis using False unfolding q_def by simp
  qed
  have sh: "unat shifted = (H * 2 ^ e + q) mod 2 ^ 64"
  proof (cases "e > 52")
    case True
    have "unat (push_bit (e - 52) d) = take_bit 64 (push_bit (e - 52) n)"
      unfolding n_def by (simp only: unsigned_push_bit_eq) simp
    also have "\<dots> = (n * 2 ^ (e - 52)) mod 2 ^ 64"
      by (simp only: take_bit_eq_mod push_bit_eq_mult)
    also have "n * 2 ^ (e - 52) = H * 2 ^ (52 + (e - 52)) + m * 2 ^ (e - 52)"
      unfolding n by (rule align_left)
    finally show ?thesis using True unfolding shifted_def q_def by simp
  next
    case False
    then have e52: "e \<le> 52" by simp
    have "unat (drop_bit (52 - e) d) = n div 2 ^ (52 - e)"
      unfolding n_def by (simp only: unat_drop_bit_eq) (simp only: drop_bit_eq_div)
    also have "\<dots> = H * 2 ^ e + m div 2 ^ (52 - e)"
      unfolding n using e52 by (rule align_right)
    finally have *: "unat shifted = H * 2 ^ e + q"
      using False unfolding shifted_def q_def by simp
    have "unat shifted < 2 ^ 64" using unsigned_less [of shifted] by simp
    then show ?thesis unfolding * by simp
  qed
  have res: "unat result = (H * 2 ^ e + q) mod 2 ^ 64 mod 2 ^ LENGTH('a)"
    unfolding result_def sh [symmetric]
    by (simp only: unsigned_ucast_eq take_bit_eq_mod)
  have msk: "unat masked =
      (if e < LENGTH('a) then (unat result mod 2 ^ e + 2 ^ e) mod 2 ^ LENGTH('a)
       else unat result)"
  proof (cases "e < LENGTH('a)")
    case True
    have one: "push_bit e (1 :: 'a word) = 2 ^ e" by simp
    have "result AND (2 ^ e - 1) = take_bit e result"
      by (simp only: take_bit_eq_mask mask_eq_decr_exp)
    then have "unat (result AND (2 ^ e - 1)) = take_bit e (unat result)"
      by (simp only: unsigned_take_bit_eq)
    then have a: "unat (result AND (2 ^ e - 1)) = unat result mod 2 ^ e"
      by (simp only: take_bit_eq_mod)
    have "unat (2 ^ e :: 'a word) = unat (of_nat (2 ^ e) :: 'a word)" by simp
    also have "\<dots> = 2 ^ e mod 2 ^ LENGTH('a)" by (simp only: unat_of_nat)
    also have "\<dots> = 2 ^ e" using True by simp
    finally have b: "unat (2 ^ e :: 'a word) = 2 ^ e" .
    show ?thesis using True unfolding masked_def one
      by (simp only: if_True unat_word_ariths a b)
  next
    case False
    then show ?thesis unfolding masked_def by simp
  qed
  have "unat masked = (2 ^ e + q) mod 2 ^ LENGTH('a)"
    unfolding msk res using q W by (rule align_common)
  then show ?thesis
    unfolding aligned_value q_def m_def n_def .
qed


lemma decoded_exponent_eq: "decoded_exponent d = int (biased_exponent d) - 1023"
  by (simp add: decoded_exponent_def biased_exponent_def ExponentBias_def)

lemma ToUintWidth_small:
  assumes "biased_exponent d < 1023"
  shows "ToUintWidth d = Some 0"
  using assms by (simp add: ToUintWidth_def BitwiseCast_def decoded_exponent_eq)

lemma ToUintWidth_large:
  assumes "1075 + LENGTH('a::len) \<le> biased_exponent d"
  shows "(ToUintWidth d :: 'a word option) = Some 0"
proof -
  have "52 + LENGTH('a) \<le> nat (decoded_exponent d)" "\<not> decoded_exponent d < 0"
    using assms unfolding decoded_exponent_eq by simp_all
  then show ?thesis
    by (simp add: ToUintWidth_def BitwiseCast_def ExponentShift_def Let_def)
qed

lemma ToUintWidth_aligned:
  fixes d :: double
  defines "e \<equiv> biased_exponent d - 1023"
  assumes lo: "1023 \<le> biased_exponent d" and hi: "e < 52 + LENGTH('a::len)"
    and W: "LENGTH('a) \<le> 64"
  shows "\<exists>r :: 'a word. ToUintWidth d = Some (if sign_bit d then - r else r) \<and>
           unat r = ((2 ^ 52 + significand d) * 2 ^ e div 2 ^ 52) mod 2 ^ LENGTH('a)"
proof -
  define shifted where "shifted = (if e > 52 then push_bit (e - 52) d else drop_bit (52 - e) d)"
  define result where "result = (ucast shifted :: 'a word)"
  define masked where "masked = (if e < LENGTH('a)
                     then (result AND (push_bit e 1 - 1)) + push_bit e 1 else result)"
  have ex: "nat (decoded_exponent d) = e" "(decoded_exponent d < 0) = False"
    "(52 + LENGTH('a) \<le> e) = False"
    using lo hi unfolding e_def decoded_exponent_eq by simp_all
  have s1: "(if 52 < e then shl d (e - 52) else shr d (52 - e)) = Some shifted"
  proof -
    have "e - 52 < 64" "52 - e < 64" using hi W by simp_all
    then show ?thesis unfolding shifted_def shl_def shr_def by simp
  qed
  have s2: "(if e < LENGTH('a)
             then shl (1 :: 'a word) e \<bind>
                  (\<lambda>implicitOne. Some ((ucast shifted AND (implicitOne - 1)) + implicitOne))
             else Some (ucast shifted)) = Some masked"
    unfolding masked_def result_def shl_def by simp
  have "ToUintWidth d = Some (if d AND SignBit \<noteq> 0 then NOT masked + 1 else masked)"
    by (simp only: ToUintWidth_def BitwiseCast_def Let_def ExponentShift_def ex if_False
        s1 s2 Option.bind.bind_lunit)
  also have "NOT masked + 1 = - masked" by (simp add: minus_eq_not_plus_1)
  finally have "ToUintWidth d = Some (if sign_bit d then - masked else masked)"
    unfolding sign_bit_def .
  moreover have "unat masked = ((2 ^ 52 + unat d mod 2 ^ 52) * 2 ^ e div 2 ^ 52) mod 2 ^ LENGTH('a)"
    unfolding masked_def result_def shifted_def using hi W by (rule magnitude_word)
  ultimately show ?thesis unfolding significand_nat by blast
qed


subsection \<open>Finiteness and the truncated value in terms of the fields\<close>

lemma significand_less: "significand d < 2 ^ 52"
  unfolding significand_nat by simp

lemma biased_exponent_less: "biased_exponent d < 2048"
  unfolding biased_exponent_nat by simp

lemma unat_exponent_field: "unat (d AND ExponentBits) = biased_exponent d * 2 ^ 52"
proof -
  have "d AND ExponentBits = push_bit 52 (drop_bit 52 (d AND ExponentBits))"
    unfolding ExponentBits_eq by (rule bit_eqI) (auto simp add: bit_simps)
  then have "unat (d AND ExponentBits) = unat (push_bit 52 (drop_bit 52 (d AND ExponentBits)))"
    by (rule arg_cong)
  also have "\<dots> = take_bit 64 (push_bit 52 (biased_exponent d))"
    unfolding biased_exponent_def ExponentShift_def
    by (simp only: unsigned_push_bit_eq) simp
  also have "\<dots> = (biased_exponent d * 2 ^ 52) mod 2 ^ 64"
    by (simp only: take_bit_eq_mod push_bit_eq_mult)
  also have "\<dots> = biased_exponent d * 2 ^ 52"
    using biased_exponent_less [of d] by simp
  finally show ?thesis .
qed

lemma IsFinite_iff: "IsFinite d \<longleftrightarrow> biased_exponent d \<noteq> 2047"
proof -
  have "unat ExponentBits = 2047 * 2 ^ 52" by (simp add: ExponentBits_def)
  then have "d AND ExponentBits = ExponentBits \<longleftrightarrow> biased_exponent d * 2 ^ 52 = 2047 * 2 ^ 52"
    by (simp only: word_unat_eq_iff unat_exponent_field)
  then show ?thesis unfolding IsFinite_def by simp
qed


lemma sign_floor_abs_valof:
  "sign_floor_abs (valof d) =
     (if sign_bit d then - 1 else 1) *
     int ((if biased_exponent d = 0 then significand d else 2 ^ 52 + significand d) *
          2 ^ max (biased_exponent d) 1 div 2 ^ 1075)"
proof -
  define N where "N = (if biased_exponent d = 0 then significand d else 2 ^ 52 + significand d) *
          2 ^ max (biased_exponent d) 1"
  define D where "D = (2::nat) ^ 1075"
  have "real D = 2 ^ 1075" unfolding D_def by simp
  then have v: "valof d = (if sign_bit d then - 1 else 1) * (real N / real D)"
    unfolding valof_def N_def by (simp only: times_divide_eq_right)
  have nn: "0 \<le> real N / real D" by simp
  have fl: "\<lfloor>real N / real D\<rfloor> = int (N div D)"
    by (rule floor_divide_of_nat_eq)
  have a: "\<bar>valof d\<bar> = real N / real D"
    unfolding v using nn by (simp only: abs_mult) simp
  have "sign_floor_abs (valof d) = (if sign_bit d then - 1 else 1) * int (N div D)"
  proof (cases "valof d < 0")
    case True
    have "\<not> sign_bit d \<Longrightarrow> \<not> valof d < 0"
      unfolding v using nn by (simp only: if_False mult_1 not_less)
    with True have "sign_bit d" by blast
    then show ?thesis using True unfolding sign_floor_abs_def a fl by simp
  next
    case False
    show ?thesis
    proof (cases "sign_bit d")
      case True
      then have "\<not> - (real N / real D) < 0" using False unfolding v by simp
      with nn have "real N / real D = 0" by linarith
      then have "\<lfloor>real N / real D\<rfloor> = 0" by (simp only: floor_zero)
      then have "N div D = 0" unfolding fl by simp
      then show ?thesis using False unfolding sign_floor_abs_def a fl by simp
    next
      case False
      then show ?thesis using \<open>\<not> valof d < 0\<close> unfolding sign_floor_abs_def a fl by simp
    qed
  qed
  then show ?thesis unfolding N_def D_def .
qed

lemma trunc_small:
  assumes "biased_exponent d < 1023"
  shows "sign_floor_abs (valof d) = 0"
proof -
  define E where "E = max (biased_exponent d) 1"
  define M where "M = (if biased_exponent d = 0 then significand d else 2 ^ 52 + significand d)"
  have "E \<le> 1022" using assms unfolding E_def by simp
  then have "(2::nat) ^ E \<le> 2 ^ 1022" by (rule power_increasing) simp
  moreover have "M < 2 ^ 52 + 2 ^ 52" using significand_less [of d] unfolding M_def by simp
  then have "M < 2 ^ 53" by simp
  ultimately have "M * 2 ^ E < 2 ^ 53 * 2 ^ 1022"
    by (intro mult_less_le_imp_less) simp_all
  also have "(2::nat) ^ 53 * 2 ^ 1022 = 2 ^ 1075" by (simp only: power_add [symmetric]) simp
  finally have "M * 2 ^ E div 2 ^ 1075 = 0" by (rule div_less)
  then show ?thesis unfolding sign_floor_abs_valof M_def E_def by (simp only: of_nat_0 mult_zero_right)
qed

lemma trunc_normal:
  assumes "1023 \<le> biased_exponent d"
  shows "sign_floor_abs (valof d) =
     (if sign_bit d then - 1 else 1) *
     int ((2 ^ 52 + significand d) * 2 ^ (biased_exponent d - 1023) div 2 ^ 52)"
proof -
  define e where "e = biased_exponent d - 1023"
  define M where "M = 2 ^ 52 + significand d"
  have E: "max (biased_exponent d) 1 = e + 1023" "(biased_exponent d = 0) = False"
    using assms unfolding e_def by simp_all
  have "(2::nat) ^ 1075 = 2 ^ 52 * 2 ^ 1023" by (simp only: power_add [symmetric]) simp
  then have "M * 2 ^ (e + 1023) div 2 ^ 1075 = (M * 2 ^ e) * 2 ^ 1023 div (2 ^ 52 * 2 ^ 1023)"
    by (simp only: power_add mult.assoc)
  also have "\<dots> = M * 2 ^ e div 2 ^ 52"
    by (rule div_mult_mult2) simp
  finally show ?thesis
    unfolding sign_floor_abs_valof E if_False M_def [symmetric] e_def [symmetric]
    by (simp only:)
qed


lemma signed_mod_word:
  fixes r :: "'a::len word" and T :: nat
  assumes "unat r = T mod 2 ^ LENGTH('a)"
  shows "uint (if s then - r else r) = ((if s then - 1 else 1) * int T) mod 2 ^ LENGTH('a)"
proof -
  have u: "uint r = int T mod 2 ^ LENGTH('a)"
    using assms by (simp add: uint_nat zmod_int)
  show ?thesis
  proof (cases s)
    case True
    have "uint (- r) = (- (int T mod 2 ^ LENGTH('a))) mod 2 ^ LENGTH('a)"
      by (simp only: uint_word_ariths u)
    also have "\<dots> = (- int T) mod 2 ^ LENGTH('a)"
      by (rule mod_minus_eq)
    finally show ?thesis using True by simp
  next
    case False
    then show ?thesis using u by simp
  qed
qed

lemma trunc_huge:
  fixes d :: double and W :: nat
  assumes "1075 + W \<le> biased_exponent d"
  shows "sign_floor_abs (valof d) mod 2 ^ W = 0"
proof -
  define e where "e = biased_exponent d - 1023"
  define T where "T = (2 ^ 52 + significand d) * 2 ^ e div 2 ^ 52"
  have e: "52 \<le> e" "W \<le> e" "W \<le> e - 52" using assms unfolding e_def by simp_all
  have "T = 2 ^ e + significand d * 2 ^ (e - 52)"
    unfolding T_def aligned_value using e by (cases "e = 52") simp_all
  moreover have "(2::nat) ^ W dvd 2 ^ e" "(2::nat) ^ W dvd 2 ^ (e - 52)"
    using e by (simp_all only: le_imp_power_dvd)
  ultimately have "(2::nat) ^ W dvd T" by simp
  then have "(2::int) ^ W dvd int T"
    by (metis of_nat_dvd_iff of_nat_numeral of_nat_power)
  then have "(2::int) ^ W dvd (if sign_bit d then - 1 else 1) * int T" by simp
  then have "((if sign_bit d then - 1 else 1) * int T) mod 2 ^ W = 0"
    by (rule dvd_imp_mod_0)
  moreover have "1023 \<le> biased_exponent d" using assms by simp
  ultimately show ?thesis
    unfolding T_def e_def by (simp only: trunc_normal)
qed

lemma ToUintWidth_value:
  fixes d :: double
  assumes W: "LENGTH('a::len) \<le> 64"
  shows "\<exists>r :: 'a word. ToUintWidth d = Some r \<and>
           uint r = (if IsFinite d then sign_floor_abs (valof d) mod 2 ^ LENGTH('a) else 0)"
proof -
  consider (small) "biased_exponent d < 1023"
    | (huge) "1075 + LENGTH('a) \<le> biased_exponent d"
    | (aligned) "1023 \<le> biased_exponent d" "biased_exponent d - 1023 < 52 + LENGTH('a)"
    by linarith
  then show ?thesis
  proof cases
    case small
    then have "IsFinite d" unfolding IsFinite_iff by simp
    then show ?thesis using small by (simp add: ToUintWidth_small trunc_small)
  next
    case huge
    then show ?thesis by (simp add: ToUintWidth_large trunc_huge)
  next
    case aligned
    then have "biased_exponent d < 1139" using W by simp
    then have fin: "IsFinite d" unfolding IsFinite_iff by simp
    from ToUintWidth_aligned [OF aligned W] obtain r :: "'a word"
      where r: "ToUintWidth d = Some (if sign_bit d then - r else r)"
        and u: "unat r = ((2 ^ 52 + significand d) * 2 ^ (biased_exponent d - 1023) div 2 ^ 52)
                  mod 2 ^ LENGTH('a)"
      by blast
    have "uint (if sign_bit d then - r else r) = sign_floor_abs (valof d) mod 2 ^ LENGTH('a)"
      unfolding trunc_normal [OF aligned(1)] using u by (rule signed_mod_word)
    then show ?thesis using r fin by simp
  qed
qed

section \<open>The congruence law of the unsigned converter\<close>

text \<open>
  Claim C1. For every double \<open>d\<close> and every result width of at most 64 bits (the
  \<open>static_assert\<close> of the template), \<open>ToUintWidth\<close> returns a value, and that value
  is the unique number below \<open>2 ^ W\<close> congruent modulo \<open>2 ^ W\<close> to
  \<open>sign(d) * floor(|d|)\<close> when \<open>d\<close> is finite, and \<open>0\<close> when \<open>d\<close> is an infinity or
  a NaN. \<open>ToUint32\<close> and \<open>ToUint64\<close> are the instances at 32 and 64 bits.
\<close>

theorem ToUintWidth_congruent:
  fixes d :: double
  assumes "LENGTH('a::len) \<le> 64"
  shows "\<exists>r :: 'a word. ToUintWidth d = Some r \<and>
           uint r = (if IsFinite d then sign_floor_abs (valof d) mod 2 ^ LENGTH('a) else 0)"
  using assms by (rule ToUintWidth_value)

theorem ToUintWidth_congruent_witness:
  "LENGTH(32) \<le> (64::nat) \<and>
   ToUint32 0xC004000000000000 = Some 0xFFFFFFFE \<and>
   IsFinite 0xC004000000000000 \<and>
   sign_floor_abs (valof 0xC004000000000000) mod 2 ^ 32 = 4294967294"
proof -
  have W: "LENGTH(32) \<le> (64::nat)" by simp
  have c: "ToUint32 0xC004000000000000 = Some 0xFFFFFFFE"
    by (simp add: ToUint32_def ToUintWidth_def BitwiseCast_def decoded_exponent_def
        ExponentBits_def ExponentShift_def ExponentBias_def shl_def shr_def SignBit_def)
  have f: "IsFinite 0xC004000000000000"
    by (simp add: IsFinite_def ExponentBits_def)
  from ToUintWidth_congruent [where ?'a = 32, OF W, of "0xC004000000000000"]
  have "uint (0xFFFFFFFE :: 32 word) = sign_floor_abs (valof 0xC004000000000000) mod 2 ^ 32"
    using c f unfolding ToUint32_def by simp
  then show ?thesis using W c f by simp
qed

lemma ToUintWidth_total:
  fixes d :: double
  assumes W: "LENGTH('a::len) \<le> 64"
  shows "\<exists>r :: 'a word. ToUintWidth d = Some r"
proof -
  consider (small) "biased_exponent d < 1023"
    | (huge) "1075 + LENGTH('a) \<le> biased_exponent d"
    | (aligned) "1023 \<le> biased_exponent d" "biased_exponent d - 1023 < 52 + LENGTH('a)"
    by linarith
  then show ?thesis
  proof cases
    case small
    then show ?thesis by (simp add: ToUintWidth_small)
  next
    case huge
    then show ?thesis by (simp add: ToUintWidth_large)
  next
    case aligned
    from ToUintWidth_aligned [OF aligned W] show ?thesis by blast
  qed
qed

section \<open>Evaluation on concrete doubles\<close>

lemmas conv_defs = ToUint32_def ToUint64_def ToInt32_def ToInt64_def ToIntWidth_def
  signed_result_def ToUintWidth_def BitwiseCast_def decoded_exponent_def ExponentBits_def ExponentShift_def
  ExponentBias_def shl_def shr_def SignBit_def

lemmas value_defs = valof_def sign_bit_def biased_exponent_def significand_def
  ExponentBits_def ExponentShift_def SignBit_def SignificandBits_def

lemmas integer_defs = ToInteger_def double_eq_zero_def double_lt_zero_def IsNaN_def
  IsFinite_def ceil_double_def floor_double_def quiet_def trunc_bits_def round_away_def
  PositiveZero_def sign_bit_def biased_exponent_def ExponentBits_def ExponentShift_def
  SignBit_def SignificandBits_def

section \<open>The early returns of the unsigned converter\<close>

lemma abs_valof:
  "\<bar>valof d\<bar> =
     real ((if biased_exponent d = 0 then significand d else 2 ^ 52 + significand d) *
           2 ^ max (biased_exponent d) 1) / 2 ^ 1075"
proof -
  define N where "N = (if biased_exponent d = 0 then significand d else 2 ^ 52 + significand d) *
          2 ^ max (biased_exponent d) 1"
  define D where "D = (2::real) ^ 1075"
  have D: "0 < D" unfolding D_def by simp
  have v: "valof d = (if sign_bit d then - 1 else 1) * (real N / D)"
    unfolding valof_def N_def D_def by (simp only: times_divide_eq_right)
  have "0 \<le> real N / D" using D by simp
  then have "\<bar>real N / D\<bar> = real N / D" "\<bar>- (real N / D)\<bar> = real N / D"
    by (simp_all only: abs_of_nonneg abs_minus_cancel)
  then have "\<bar>valof d\<bar> = real N / D" unfolding v by (cases "sign_bit d") simp_all
  then show ?thesis unfolding N_def D_def .
qed

lemma abs_valof_less_1_iff: "\<bar>valof d\<bar> < 1 \<longleftrightarrow> biased_exponent d < 1023"
proof -
  define E where "E = max (biased_exponent d) 1"
  define M where "M = (if biased_exponent d = 0 then significand d else 2 ^ 52 + significand d)"
  define D where "D = (2::nat) ^ 1075"
  have D: "0 < real D" "real D = 2 ^ 1075" unfolding D_def by simp_all
  have a: "\<bar>valof d\<bar> = real (M * 2 ^ E) / real D"
    unfolding abs_valof M_def E_def D(2) ..
  have "\<bar>valof d\<bar> < 1 \<longleftrightarrow> real (M * 2 ^ E) < real D"
    unfolding a using D(1) by (rule divide_less_eq_1_pos)
  also have "\<dots> \<longleftrightarrow> M * 2 ^ E < 2 ^ 1075"
    unfolding D_def by (rule of_nat_less_iff)
  also have "\<dots> \<longleftrightarrow> biased_exponent d < 1023"
  proof (cases "biased_exponent d < 1023")
    case True
    then have "E \<le> 1022" unfolding E_def by simp
    then have "(2::nat) ^ E \<le> 2 ^ 1022" by (rule power_increasing) simp
    moreover have "M < 2 ^ 52 + 2 ^ 52" using significand_less [of d] unfolding M_def by simp
    then have "M < 2 ^ 53" by simp
    ultimately have "M * 2 ^ E < 2 ^ 53 * 2 ^ 1022"
      by (intro mult_less_le_imp_less) simp_all
    also have "(2::nat) ^ 53 * 2 ^ 1022 = 2 ^ 1075" by (simp only: power_add [symmetric]) simp
    finally show ?thesis using True by simp
  next
    case False
    then have E: "E = biased_exponent d" "1023 \<le> E" "M = 2 ^ 52 + significand d"
      unfolding E_def M_def by simp_all
    have "(2::nat) ^ 1075 = 2 ^ 52 * 2 ^ 1023" by (simp only: power_add [symmetric]) simp
    also have "\<dots> \<le> M * 2 ^ E"
      using E by (intro mult_le_mono power_increasing) simp_all
    finally show ?thesis using False by simp
  qed
  finally show ?thesis .
qed

lemma not_finite_exponent: "\<not> IsFinite d \<Longrightarrow> decoded_exponent d = 1024"
  unfolding IsFinite_iff decoded_exponent_eq by simp


text \<open>
  Claim C2, as amended. \<open>ToUintWidth\<close> returns 0 whenever the decoded exponent is
  negative, which is the case exactly for the finite doubles of magnitude below 1 and in
  particular for the zeros and subnormals (exponent field 0), and whenever the decoded
  exponent is at least \<open>52 + W\<close>, which is the case for every infinity and NaN. These
  two cases are not the only zero results: the result is 0 exactly when \<open>d\<close> is not
  finite or its truncated value \<open>sign(d) * floor(|d|)\<close> is a multiple of \<open>2 ^ W\<close>.
\<close>

theorem ToUintWidth_zero_results:
  fixes d :: double
  assumes W: "LENGTH('a::len) \<le> 64"
  shows "(decoded_exponent d < 0 \<longrightarrow> (ToUintWidth d :: 'a word option) = Some 0) \<and>
         (int (ExponentShift + LENGTH('a)) \<le> decoded_exponent d \<longrightarrow>
            (ToUintWidth d :: 'a word option) = Some 0) \<and>
         (decoded_exponent d < 0 \<longleftrightarrow> IsFinite d \<and> \<bar>valof d\<bar> < 1) \<and>
         (biased_exponent d = 0 \<longrightarrow> decoded_exponent d < 0) \<and>
         (\<not> IsFinite d \<longrightarrow> int (ExponentShift + LENGTH('a)) \<le> decoded_exponent d) \<and>
         ((ToUintWidth d :: 'a word option) = Some 0 \<longleftrightarrow>
            \<not> IsFinite d \<or> sign_floor_abs (valof d) mod 2 ^ LENGTH('a) = 0)"
proof -
  have 1: "(ToUintWidth d :: 'a word option) = Some 0" if "decoded_exponent d < 0"
    using that unfolding decoded_exponent_eq by (intro ToUintWidth_small) simp
  have 2: "(ToUintWidth d :: 'a word option) = Some 0"
    if "int (ExponentShift + LENGTH('a)) \<le> decoded_exponent d"
    using that unfolding decoded_exponent_eq ExponentShift_def by (intro ToUintWidth_large) simp
  have 3: "decoded_exponent d < 0 \<longleftrightarrow> IsFinite d \<and> \<bar>valof d\<bar> < 1"
    unfolding abs_valof_less_1_iff IsFinite_iff decoded_exponent_eq by auto
  have 4: "decoded_exponent d < 0" if "biased_exponent d = 0"
    using that unfolding decoded_exponent_eq by simp
  have 5: "int (ExponentShift + LENGTH('a)) \<le> decoded_exponent d" if "\<not> IsFinite d"
    using not_finite_exponent [OF that] W unfolding ExponentShift_def by simp
  have 6: "(ToUintWidth d :: 'a word option) = Some 0 \<longleftrightarrow>
      \<not> IsFinite d \<or> sign_floor_abs (valof d) mod 2 ^ LENGTH('a) = 0"
  proof -
    from ToUintWidth_value [OF W, of d] obtain r :: "'a word"
      where r: "ToUintWidth d = Some r"
        and u: "uint r = (if IsFinite d then sign_floor_abs (valof d) mod 2 ^ LENGTH('a) else 0)"
      by blast
    have "r = 0 \<longleftrightarrow> uint r = 0" by (simp add: word_uint_eq_iff)
    then show ?thesis unfolding r u by auto
  qed
  show ?thesis using 1 2 3 4 5 6 by blast
qed

theorem ToUintWidth_zero_results_witness:
  "LENGTH(32) \<le> (64::nat) \<and>
   decoded_exponent 0x3FE0000000000000 < 0 \<and>
   (ToUintWidth 0x3FE0000000000000 :: 32 word option) = Some 0 \<and>
   IsFinite 0x3FE0000000000000 \<and> \<bar>valof 0x3FE0000000000000\<bar> < 1 \<and>
   \<not> IsFinite 0x7FF0000000000000 \<and>
   int (ExponentShift + LENGTH(32)) \<le> decoded_exponent 0x7FF0000000000000 \<and>
   (ToUintWidth 0x7FF0000000000000 :: 32 word option) = Some 0 \<and>
   IsFinite 0x41F0000000000000 \<and>
   (ToUintWidth 0x41F0000000000000 :: 32 word option) = Some 0 \<and>
   sign_floor_abs (valof 0x41F0000000000000) mod 2 ^ LENGTH(32) = 0 \<and>
   IsFinite 0x3FF0000000000000 \<and>
   (ToUintWidth 0x3FF0000000000000 :: 32 word option) = Some 1 \<and>
   sign_floor_abs (valof 0x3FF0000000000000) mod 2 ^ LENGTH(32) \<noteq> 0"
proof -
  have W: "LENGTH(32) \<le> (64::nat)" by simp
  have a: "decoded_exponent 0x3FE0000000000000 < 0"
    by (simp add: decoded_exponent_def ExponentBits_def ExponentShift_def ExponentBias_def)
  have b: "\<not> IsFinite 0x7FF0000000000000"
    by (simp add: IsFinite_def ExponentBits_def)
  have f: "IsFinite 0x41F0000000000000" "IsFinite 0x3FF0000000000000"
    by (simp_all add: IsFinite_def ExponentBits_def)
  have z: "(ToUintWidth 0x41F0000000000000 :: 32 word option) = Some 0"
    by (simp add: conv_defs)
  have o: "(ToUintWidth 0x3FF0000000000000 :: 32 word option) = Some 1"
    by (simp add: conv_defs)
  note t1 = ToUintWidth_zero_results [where ?'a = 32, OF W, of "0x3FE0000000000000"]
  note t2 = ToUintWidth_zero_results [where ?'a = 32, OF W, of "0x7FF0000000000000"]
  note t3 = ToUintWidth_zero_results [where ?'a = 32, OF W, of "0x41F0000000000000"]
  note t4 = ToUintWidth_zero_results [where ?'a = 32, OF W, of "0x3FF0000000000000"]
  have "(ToUintWidth 0x3FE0000000000000 :: 32 word option) = Some 0"
    "IsFinite 0x3FE0000000000000" "\<bar>valof 0x3FE0000000000000\<bar> < 1"
    using t1 a by blast+
  moreover have "int (ExponentShift + LENGTH(32)) \<le> decoded_exponent 0x7FF0000000000000"
    "(ToUintWidth 0x7FF0000000000000 :: 32 word option) = Some 0"
    using t2 b by blast+
  moreover have "sign_floor_abs (valof 0x41F0000000000000) mod 2 ^ LENGTH(32) = 0"
    using t3 f(1) z by blast
  moreover have "sign_floor_abs (valof 0x3FF0000000000000) mod 2 ^ LENGTH(32) \<noteq> 0"
    using t4 f(2) o by auto
  ultimately show ?thesis using W a b f z o by blast
qed

text \<open>
  The double \<open>4294967296.0\<close> (\<open>2 ^ 32\<close>, \<open>0x41F0000000000000\<close>) has decoded exponent
  32, neither negative nor at least \<open>52 + 32\<close>, and \<open>ToUint32\<close> returns 0 for it.
\<close>

theorem ToUintWidth_zero_outside_early_cases:
  "ToUint32 0x41F0000000000000 = Some 0 \<and>
   decoded_exponent 0x41F0000000000000 = 32 \<and>
   \<not> decoded_exponent 0x41F0000000000000 < 0 \<and>
   \<not> int (ExponentShift + LENGTH(32)) \<le> decoded_exponent 0x41F0000000000000"
proof -
  have "ToUint32 0x41F0000000000000 = Some 0" by (simp add: conv_defs)
  moreover have e: "decoded_exponent 0x41F0000000000000 = 32"
    by (simp add: decoded_exponent_def ExponentBits_def ExponentShift_def ExponentBias_def)
  ultimately show ?thesis by (simp add: ExponentShift_def)
qed

section \<open>No shift of the unsigned converter is undefined\<close>

text \<open>
  Claim C6. For every double and every result width of at most 64 bits, no shift of
  \<open>ToUintWidth\<close> has an amount that reaches the width of its operand: the conversion
  never takes the \<open>None\<close> branch of a checked shift, and once the two exponent guards
  are passed the 64-bit shift that is performed is defined, the left amount
  \<open>exponent - 52\<close> and the right amount \<open>52 - exponent\<close> are at most 63, and the
  shift that builds the implicit-one mask is defined whenever it is performed
  (\<open>exponent < W\<close>).
\<close>

theorem ToUintWidth_shifts_defined:
  fixes d :: double
  assumes W: "LENGTH('a::len) \<le> 64"
  shows "(ToUintWidth d :: 'a word option) \<noteq> None \<and>
         (0 \<le> decoded_exponent d \<and> nat (decoded_exponent d) < ExponentShift + LENGTH('a) \<longrightarrow>
            (if nat (decoded_exponent d) > ExponentShift
             then shl (BitwiseCast d) (nat (decoded_exponent d) - ExponentShift)
             else shr (BitwiseCast d) (ExponentShift - nat (decoded_exponent d))) \<noteq> None \<and>
            nat (decoded_exponent d) - ExponentShift \<le> 63 \<and>
            ExponentShift - nat (decoded_exponent d) \<le> 63 \<and>
            (nat (decoded_exponent d) < LENGTH('a) \<longrightarrow>
               shl (1 :: 'a word) (nat (decoded_exponent d)) \<noteq> None))"
proof -
  from ToUintWidth_total [OF W] obtain r :: "'a word" where "ToUintWidth d = Some r" by blast
  then have "(ToUintWidth d :: 'a word option) \<noteq> None" by simp
  moreover have "nat (decoded_exponent d) - ExponentShift \<le> 63"
    if "nat (decoded_exponent d) < ExponentShift + LENGTH('a)"
    using that W unfolding ExponentShift_def by simp
  moreover have "ExponentShift - nat (decoded_exponent d) \<le> 63"
    unfolding ExponentShift_def by simp
  ultimately show ?thesis unfolding shl_def shr_def by auto
qed


theorem ToUintWidth_shifts_defined_witness:
  "LENGTH(32) \<le> (64::nat) \<and>
   (ToUintWidth 0x41EFFFFFFFF00000 :: 32 word option) \<noteq> None \<and>
   decoded_exponent 0x41EFFFFFFFF00000 = 31 \<and>
   shr (BitwiseCast 0x41EFFFFFFFF00000) (ExponentShift - 31) \<noteq> None \<and>
   shl (1 :: 32 word) 31 \<noteq> None"
proof -
  have W: "LENGTH(32) \<le> (64::nat)" by simp
  have e: "decoded_exponent 0x41EFFFFFFFF00000 = 31"
    by (simp add: decoded_exponent_def ExponentBits_def ExponentShift_def ExponentBias_def)
  show ?thesis
    using W e ToUintWidth_shifts_defined [where ?'a = 32, OF W, of "0x41EFFFFFFFF00000"]
    by (simp add: ExponentShift_def)
qed

section \<open>The signed converter reinterprets the unsigned result\<close>

lemma sint_cases:
  fixes u :: "'a::len word"
  shows "sint u = (if uint u \<le> 2 ^ (LENGTH('a) - 1) - 1 then uint u else uint u - 2 ^ LENGTH('a))"
proof -
  define n where "n = LENGTH('a) - 1"
  have W: "LENGTH('a) = Suc n" unfolding n_def by simp
  have p: "(2::int) ^ LENGTH('a) = 2 * 2 ^ n" unfolding W by simp
  have b: "0 \<le> uint u" "uint u < 2 * 2 ^ n" using uint_lt2p [of u] unfolding p by simp_all
  have "sint u = signed_take_bit n (uint u)"
    unfolding n_def by (simp add: sint_uint)
  also have "\<dots> = (uint u + 2 ^ n) mod 2 ^ Suc n - 2 ^ n"
    by (simp only: signed_take_bit_eq_take_bit_shift take_bit_eq_mod)
  finally have s: "sint u = (uint u + 2 ^ n) mod (2 * 2 ^ n) - 2 ^ n" by simp
  show ?thesis
  proof (cases "uint u \<le> 2 ^ n - 1")
    case True
    then have "(uint u + 2 ^ n) mod (2 * 2 ^ n) = uint u + 2 ^ n"
      using b by (intro mod_pos_pos_trivial) simp_all
    then show ?thesis using True unfolding s n_def by simp
  next
    case False
    then have "2 * 2 ^ n \<le> uint u + 2 ^ n" "uint u + 2 ^ n - 2 * 2 ^ n < 2 * 2 ^ n"
      using b by simp_all
    then have "(uint u + 2 ^ n - 2 * 2 ^ n) mod (2 * 2 ^ n) = uint u + 2 ^ n - 2 * 2 ^ n"
      by (intro mod_pos_pos_trivial) simp_all
    moreover have "(uint u + 2 ^ n - 2 * 2 ^ n + 2 * 2 ^ n) mod (2 * 2 ^ n)
        = (uint u + 2 ^ n - 2 * 2 ^ n) mod (2 * 2 ^ n)"
      by (rule mod_add_self2)
    ultimately have "(uint u + 2 ^ n) mod (2 * 2 ^ n) = uint u + 2 ^ n - 2 * 2 ^ n"
      by (simp add: add.commute)
    then show ?thesis using False unfolding s p n_def [symmetric] by simp
  qed
qed

lemma MaxValue_mask:
  assumes "LENGTH('a::len) \<le> 64"
  shows "(ucast ((push_bit (LENGTH('a) - 1) (1 :: 64 word)) - 1) :: 'a word) = mask (LENGTH('a) - 1)"
proof -
  have "push_bit (LENGTH('a) - 1) (1 :: 64 word) - 1 = mask (LENGTH('a) - 1)"
    by (simp add: mask_eq_decr_exp)
  then show ?thesis using assms by (simp add: ucast_mask_eq min_def)
qed

lemma sint_word_of_int_in_range:
  fixes k :: int
  assumes "- (2 ^ (LENGTH('a::len) - 1)) \<le> k" and "k < 2 ^ (LENGTH('a) - 1)"
  shows "sint (word_of_int k :: 'a word) = k"
proof -
  have "sint (word_of_int k :: 'a word) = signed_take_bit (LENGTH('a) - 1) k"
    by (rule sint_sbintrunc')
  also have "\<dots> = k" using assms by (rule signed_take_bit_int_eq_self)
  finally show ?thesis .
qed

lemma signed_result_in_range:
  fixes k :: int
  assumes "- (2 ^ (LENGTH('a::len) - 1)) \<le> k" and "k < 2 ^ (LENGTH('a) - 1)"
  shows "(signed_result k :: 'a word option) = Some (word_of_int k)"
  using assms unfolding signed_result_def by simp

lemma signed_result_overflow:
  fixes k :: int
  assumes "k < - (2 ^ (LENGTH('a::len) - 1))"
  shows "(signed_result k :: 'a word option) = None"
  using assms unfolding signed_result_def by simp

text \<open>
  The signed converter returns the pattern of the unsigned result for every unsigned
  result but the all-ones pattern. For all-ones the difference \<open>u - MaxValue\<close> is
  \<open>2 ^ (W - 1)\<close>, which the cast turns into \<open>MinValue\<close>, and \<open>MinValue + MinValue\<close>
  overflows the signed type.
\<close>

lemma ToIntWidth_checked:
  fixes d :: double
  assumes W: "LENGTH('a::len) \<le> 64"
    and u: "ToUintWidth d = Some (u :: 'a word)"
  shows "ToIntWidth d = (if u = - 1 then None else Some u)"
proof -
  define n where "n = LENGTH('a) - 1"
  define P :: int where "P = 2 ^ n"
  define Max :: "'a word" where "Max = mask n"
  define NM :: "'a word" where "NM = word_of_int (- (P - 1))"
  define MV :: "'a word" where "MV = word_of_int (- (P - 1) - 1)"
  have Wn: "LENGTH('a) = Suc n" unfolding n_def by simp
  have P: "1 \<le> P" "(2::int) ^ LENGTH('a) = 2 * P" unfolding P_def Wn by simp_all
  have "LENGTH('a) - 1 < 64" using W by simp
  then have top: "shl (1 :: 64 word) (LENGTH('a) - 1) = Some (push_bit (LENGTH('a) - 1) 1)"
    unfolding shl_def by simp
  have max: "(ucast ((push_bit (LENGTH('a) - 1) (1 :: 64 word)) - 1) :: 'a word) = Max"
    unfolding Max_def n_def using W by (rule MaxValue_mask)
  have umax: "uint Max = P - 1"
  proof -
    have "uint (mask n :: 'a word) = mask (min LENGTH('a) n)" by (rule uint_mask_eq)
    also have "\<dots> = 2 ^ n - 1" unfolding Wn by (simp add: min_def mask_eq_exp_minus_1)
    finally show ?thesis unfolding Max_def P_def .
  qed
  have smax: "sint Max = P - 1"
    using sint_cases [of Max] unfolding umax n_def [symmetric] P_def [symmetric] by simp
  have inr: "(signed_result k :: 'a word option) = Some (word_of_int k)"
    "sint (word_of_int k :: 'a word) = k" if "- P \<le> k" "k < P" for k
    using that unfolding P_def n_def
    by (simp_all only: signed_result_in_range sint_word_of_int_in_range)
  have ovf: "(signed_result k :: 'a word option) = None" if "k < - P" for k
    using that unfolding P_def n_def by (rule signed_result_overflow)
  have r0: "- P \<le> - (P - 1)" "- (P - 1) < P" "- P \<le> - (P - 1) - 1" "- (P - 1) - 1 < P"
    using P(1) by simp_all
  have f1: "(signed_result (- sint Max) :: 'a word option) = Some NM"
    unfolding smax NM_def using r0(1,2) by (rule inr(1))
  have sNM: "sint NM = - (P - 1)"
    unfolding NM_def using r0(1,2) by (rule inr(2))
  have f2: "(signed_result (sint NM - 1) :: 'a word option) = Some MV"
    unfolding sNM MV_def using r0(3,4) by (rule inr(1))
  have "sint MV = - (P - 1) - 1"
    unfolding MV_def using r0(3,4) by (rule inr(2))
  then have sMV: "sint MV = - P" by simp
  have ub: "0 \<le> uint u" "uint u < 2 * P" using uint_lt2p [of u] unfolding P(2) by simp_all
  have ones: "u = - 1 \<longleftrightarrow> uint u = 2 * P - 1"
  proof -
    have "uint (- 1 :: 'a word) = 2 ^ LENGTH('a) - 1"
      by (simp add: unsigned_minus_1_eq_mask mask_eq_exp_minus_1)
    then show ?thesis unfolding word_uint_eq_iff P(2) by simp
  qed
  have unf: "ToIntWidth d =
      (if u \<le> Max then Some u
       else (signed_result (sint MV + sint (u - Max)) :: 'a word option) \<bind>
            (\<lambda>sum. signed_result (sint sum - 1)))"
    by (simp only: ToIntWidth_def top Option.bind.bind_lunit Let_def max f1 f2 u)
  show ?thesis
  proof (cases "u \<le> Max")
    case True
    then have "uint u \<le> P - 1" unfolding word_le_def umax .
    then have "u \<noteq> - 1" unfolding ones using P(1) by simp
    then show ?thesis unfolding unf using True by simp
  next
    case False
    then have lo: "P \<le> uint u" unfolding word_le_def umax by simp
    then have "uint Max \<le> uint u" unfolding umax by simp
    then have "uint (u - Max) = uint u - uint Max" by (simp only: uint_sub_lem)
    then have uc: "uint (u - Max) = uint u - (P - 1)" unfolding umax .
    show ?thesis
    proof (cases "u = - 1")
      case True
      then have "uint (u - Max) = P" unfolding uc using ones by simp
      then have "sint (u - Max) = - P"
        using sint_cases [of "u - Max"] P(1)
        unfolding n_def [symmetric] P_def [symmetric] P(2) by simp
      then have "sint MV + sint (u - Max) < - P" unfolding sMV using P(1) by simp
      then have "(signed_result (sint MV + sint (u - Max)) :: 'a word option) = None"
        by (rule ovf)
      then show ?thesis unfolding unf using True False by simp
    next
      case ne: False
      then have hi: "uint u \<le> 2 * P - 2" using ones ub by simp
      then have "uint (u - Max) \<le> P - 1" unfolding uc by simp
      then have sc: "sint (u - Max) = uint u - (P - 1)"
        using sint_cases [of "u - Max"]
        unfolding n_def [symmetric] P_def [symmetric] uc by simp
      define S :: "'a word" where "S = word_of_int (uint u - 2 * P + 1)"
      have k1: "sint MV + sint (u - Max) = uint u - 2 * P + 1" unfolding sMV sc by simp
      have r1: "- P \<le> uint u - 2 * P + 1" "uint u - 2 * P + 1 < P" using lo hi by simp_all
      have f3: "(signed_result (sint MV + sint (u - Max)) :: 'a word option) = Some S"
        unfolding k1 S_def using r1 by (rule inr(1))
      have sS: "sint S = uint u - 2 * P + 1"
        unfolding S_def using r1 by (rule inr(2))
      have r2: "- P \<le> uint u - 2 * P" "uint u - 2 * P < P" using lo hi by simp_all
      have "(signed_result (sint S - 1) :: 'a word option) = Some (word_of_int (uint u - 2 * P))"
      proof -
        have "sint S - 1 = uint u - 2 * P" unfolding sS by simp
        then show ?thesis using inr(1) [OF r2] by simp
      qed
      moreover have "(word_of_int (uint u - 2 * P) :: 'a word) = u"
      proof -
        have "(word_of_int (uint u - 2 ^ LENGTH('a)) :: 'a word) =
            word_of_int (uint u) - word_of_int (2 ^ LENGTH('a))"
          by (rule of_int_diff)
        also have "\<dots> = u" by simp
        finally show ?thesis unfolding P(2) .
      qed
      ultimately have f4: "(signed_result (sint S - 1) :: 'a word option) = Some u" by simp
      show ?thesis unfolding unf using False ne f3 f4 by simp
    qed
  qed
qed

lemma ToIntWidth_reinterprets_below_all_ones:
  fixes d :: double
  assumes W: "LENGTH('a::len) \<le> 64"
    and u: "ToUintWidth d = Some (u :: 'a word)" and ne: "u \<noteq> - 1"
  shows "ToIntWidth d = Some u \<and>
         sint u = (if uint u \<le> 2 ^ (LENGTH('a) - 1) - 1 then uint u
                   else uint u - 2 ^ LENGTH('a))"
  using ToIntWidth_checked [OF W u] ne sint_cases [of u] by simp

text \<open>
  Claim C3. \<open>ToIntWidth\<close> should return, for every double, the signed integer whose
  two's-complement pattern is the result \<open>u\<close> of \<open>ToUintWidth\<close>: \<open>u\<close> itself when
  \<open>u \<le> 2 ^ (W - 1) - 1\<close> and \<open>u - 2 ^ W\<close> otherwise. At \<open>d = -1.0\<close>
  (\<open>0xBFF0000000000000\<close>) the unsigned result is the all-ones pattern, whose signed
  reading is \<open>-1\<close>, but the computation \<open>(MinValue + (u - MaxValue)) - 1\<close> has no
  defined result, at 32 and at 64 bits: the signed addition overflows.
\<close>

theorem ToIntWidth_undefined_at_minus_one:
  "ToUintWidth 0xBFF0000000000000 = Some (- 1 :: 32 word) \<and>
   sint (- 1 :: 32 word) = - 1 \<and>
   (ToIntWidth 0xBFF0000000000000 :: 32 word option) = None \<and>
   ToUintWidth 0xBFF0000000000000 = Some (- 1 :: 64 word) \<and>
   sint (- 1 :: 64 word) = - 1 \<and>
   (ToIntWidth 0xBFF0000000000000 :: 64 word option) = None"
proof -
  have u32: "ToUintWidth 0xBFF0000000000000 = Some (- 1 :: 32 word)"
    by (simp add: conv_defs)
  have u64: "ToUintWidth 0xBFF0000000000000 = Some (- 1 :: 64 word)"
    by (simp add: conv_defs)
  have "(ToIntWidth 0xBFF0000000000000 :: 32 word option) = None"
    using ToIntWidth_checked [OF _ u32] by simp
  moreover have "(ToIntWidth 0xBFF0000000000000 :: 64 word option) = None"
    using ToIntWidth_checked [OF _ u64] by simp
  ultimately show ?thesis using u32 u64 by simp
qed

section \<open>Boundary values and examples\<close>

text \<open>
  The doubles of the examples, by their bit patterns: \<open>2147483648.0\<close> is
  \<open>0x41E0000000000000\<close>, \<open>4294967296.0\<close> is \<open>0x41F0000000000000\<close>, \<open>4294967295.5\<close> is
  \<open>0x41EFFFFFFFF00000\<close>, \<open>4294967297.0\<close> is \<open>0x41F0000000100000\<close>, \<open>-1.0\<close> is
  \<open>0xBFF0000000000000\<close>, \<open>-2.0\<close> is \<open>0xC000000000000000\<close> and \<open>2.0\<close> is
  \<open>0x4000000000000000\<close>. The literals \<open>-2.7\<close> and \<open>2.1\<close> are not binary fractions;
  they denote the nearest doubles \<open>0xC00599999999999A\<close> and \<open>0x4000CCCCCCCCCCCD\<close>,
  which lie within half a unit in the last place (\<open>2 ^ -52\<close>) of them.
\<close>

lemma example_values:
  "valof 0x41E0000000000000 = 2147483648"
  "valof 0x41F0000000000000 = 4294967296"
  "valof 0x41EFFFFFFFF00000 = 4294967295 + 1 / 2"
  "valof 0x41F0000000100000 = 4294967297"
  "valof 0xBFF0000000000000 = - 1"
  "valof 0xC000000000000000 = - 2"
  "valof 0x4000000000000000 = 2"
  "\<bar>valof 0xC00599999999999A + 27 / 10\<bar> < 1 / 2 ^ 52"
  "\<bar>valof 0x4000CCCCCCCCCCCD - 21 / 10\<bar> < 1 / 2 ^ 52"
  by (simp_all add: value_defs)

text \<open>
  Claim C7. \<open>ToInt32(2147483648.0) = -2147483648\<close>, \<open>ToUint32(4294967296.0) = 0\<close>,
  \<open>ToUint32(4294967295.5) = 4294967295\<close>, \<open>ToInt32(4294967297.0) = 1\<close>,
  \<open>ToUint32(-1.0) = 4294967295\<close>, \<open>ToInteger(-2.7) = -2.0\<close> and
  \<open>ToInteger(2.1) = 2.0\<close>.
\<close>

theorem boundary_examples:
  "map_option sint (ToInt32 0x41E0000000000000) = Some (- 2147483648) \<and>
   ToUint32 0x41F0000000000000 = Some 0 \<and>
   ToUint32 0x41EFFFFFFFF00000 = Some 4294967295 \<and>
   map_option sint (ToInt32 0x41F0000000100000) = Some 1 \<and>
   ToUint32 0xBFF0000000000000 = Some 4294967295 \<and>
   ToInteger 0xC00599999999999A = 0xC000000000000000 \<and>
   ToInteger 0x4000CCCCCCCCCCCD = 0x4000000000000000"
proof -
  have "map_option sint (ToInt32 0x41E0000000000000) = Some (- 2147483648)"
    by (simp add: conv_defs)
  moreover have "ToUint32 0x41F0000000000000 = Some 0"
    by (simp add: conv_defs)
  moreover have "ToUint32 0x41EFFFFFFFF00000 = Some 4294967295"
    by (simp add: conv_defs)
  moreover have "map_option sint (ToInt32 0x41F0000000100000) = Some 1"
    by (simp add: conv_defs)
  moreover have "ToUint32 0xBFF0000000000000 = Some 4294967295"
    by (simp add: conv_defs)
  moreover have "ToInteger 0xC00599999999999A = 0xC000000000000000"
    by (simp add: integer_defs mask_eq_exp_minus_1)
  moreover have "ToInteger 0x4000CCCCCCCCCCCD = 0x4000000000000000"
    by (simp add: integer_defs mask_eq_exp_minus_1)
  ultimately show ?thesis by blast
qed

section \<open>Agreement of the 32-bit and 64-bit signed conversions\<close>

lemma sint_of_mod:
  fixes w :: "'a::len word" and X :: int
  assumes u: "uint w = X mod 2 ^ LENGTH('a)"
    and lo: "- (2 ^ (LENGTH('a) - 1)) \<le> X" and hi: "X < 2 ^ (LENGTH('a) - 1)"
  shows "sint w = X"
proof -
  define n where "n = LENGTH('a) - 1"
  have W: "LENGTH('a) = Suc n" unfolding n_def by simp
  have "sint w = signed_take_bit n (uint w)"
    unfolding n_def by (simp add: sint_uint)
  also have "\<dots> = signed_take_bit n (take_bit (Suc n) X)"
    unfolding u W by (simp only: take_bit_eq_mod)
  also have "\<dots> = signed_take_bit n X"
    by (simp add: signed_take_bit_take_bit)
  also have "\<dots> = X"
    using lo hi unfolding n_def [symmetric] by (rule signed_take_bit_int_eq_self)
  finally show ?thesis .
qed

lemma ToIntWidth_value:
  fixes d :: double
  assumes W: "LENGTH('a::len) \<le> 64"
    and fin: "IsFinite d"
    and lo: "- (2 ^ (LENGTH('a) - 1)) \<le> sign_floor_abs (valof d)"
    and hi: "sign_floor_abs (valof d) < 2 ^ (LENGTH('a) - 1)"
    and ne: "sign_floor_abs (valof d) \<noteq> - 1"
  shows "\<exists>i :: 'a word. ToIntWidth d = Some i \<and> sint i = sign_floor_abs (valof d)"
proof -
  from ToUintWidth_value [OF W, of d] obtain r :: "'a word"
    where r: "ToUintWidth d = Some r"
      and u: "uint r = sign_floor_abs (valof d) mod 2 ^ LENGTH('a)"
    using fin by auto
  have s: "sint r = sign_floor_abs (valof d)" using u lo hi by (rule sint_of_mod)
  have "r \<noteq> - 1" using s ne by auto
  then have "ToIntWidth d = Some r" using ToIntWidth_checked [OF W r] by simp
  then show ?thesis using s by blast
qed

lemma ToIntWidth_minus_one:
  fixes d :: double
  assumes W: "LENGTH('a::len) \<le> 64"
    and fin: "IsFinite d"
    and m1: "sign_floor_abs (valof d) = - 1"
  shows "(ToIntWidth d :: 'a word option) = None"
proof -
  from ToUintWidth_value [OF W, of d] obtain r :: "'a word"
    where r: "ToUintWidth d = Some r"
      and u: "uint r = sign_floor_abs (valof d) mod 2 ^ LENGTH('a)"
    using fin by auto
  have "(0 :: int) < 2 ^ (LENGTH('a) - 1)" by simp
  then have "- (2 ^ (LENGTH('a) - 1)) \<le> (- 1 :: int)" "(- 1 :: int) < 2 ^ (LENGTH('a) - 1)"
    by linarith+
  then have s: "sint r = - 1" using u unfolding m1 by (intro sint_of_mod)
  have "r = word_of_int (sint r)" by simp
  then have "r = - 1" unfolding s by simp
  then show ?thesis using ToIntWidth_checked [OF W r] by simp
qed

lemma ToIntWidth_not_finite:
  fixes d :: double
  assumes W: "LENGTH('a::len) \<le> 64" and nf: "\<not> IsFinite d"
  shows "(ToIntWidth d :: 'a word option) = Some 0"
proof -
  from ToUintWidth_value [OF W, of d] obtain r :: "'a word"
    where r: "ToUintWidth d = Some r" and u: "uint r = 0"
    using nf by auto
  from u have "r = 0" by (simp add: word_uint_eq_iff)
  moreover have "(0 :: 'a word) \<noteq> - 1" by simp
  ultimately show ?thesis using ToIntWidth_checked [OF W r] by simp
qed

text \<open>
  For every double whose truncated value lies in the int32 range and is not \<open>-1\<close>,
  \<open>ToInt64\<close> and \<open>ToInt32\<close> return the same mathematical integer, the int64 result
  is the sign extension of the int32 result, and both are the truncated value itself.
  The infinities and NaNs are covered as well: both conversions return 0 for them.
\<close>

lemma ToInt64_agrees_with_ToInt32_except_minus_one:
  fixes d :: double
  assumes lo: "IsFinite d \<Longrightarrow> - (2 ^ 31) \<le> sign_floor_abs (valof d)"
    and hi: "IsFinite d \<Longrightarrow> sign_floor_abs (valof d) \<le> 2 ^ 31 - 1"
    and ne: "IsFinite d \<Longrightarrow> sign_floor_abs (valof d) \<noteq> - 1"
  shows "\<exists>i32 i64. ToInt32 d = Some i32 \<and> ToInt64 d = Some i64 \<and>
           sint i64 = sint i32 \<and> i64 = scast i32 \<and>
           (IsFinite d \<longrightarrow> sint i32 = sign_floor_abs (valof d))"
proof (cases "IsFinite d")
  case fin: True
  define X where "X = sign_floor_abs (valof d)"
  have l32: "- (2 ^ (LENGTH(32) - 1)) \<le> X" and h32: "X < 2 ^ (LENGTH(32) - 1)"
    using lo [OF fin] hi [OF fin] unfolding X_def by simp_all
  have l64: "- (2 ^ (LENGTH(64) - 1)) \<le> X" and h64: "X < 2 ^ (LENGTH(64) - 1)"
    using lo [OF fin] hi [OF fin] unfolding X_def by simp_all
  have n1: "X \<noteq> - 1" using ne [OF fin] unfolding X_def .
  have "\<exists>i :: 32 word. ToIntWidth d = Some i \<and> sint i = sign_floor_abs (valof d)"
    using _ fin l32 h32 n1 unfolding X_def by (rule ToIntWidth_value) simp
  then obtain i32 :: "32 word" where a: "ToInt32 d = Some i32" "sint i32 = X"
    unfolding ToInt32_def X_def by blast
  have "\<exists>i :: 64 word. ToIntWidth d = Some i \<and> sint i = sign_floor_abs (valof d)"
    using _ fin l64 h64 n1 unfolding X_def by (rule ToIntWidth_value) simp
  then obtain i64 :: "64 word" where b: "ToInt64 d = Some i64" "sint i64 = X"
    unfolding ToInt64_def X_def by blast
  have "i64 = word_of_int (sint i64)" by simp
  also have "\<dots> = word_of_int (sint i32)" unfolding a(2) b(2) ..
  also have "\<dots> = scast i32" by (simp only: scast_eq)
  finally have "i64 = scast i32" .
  then show ?thesis using a b unfolding X_def by simp
next
  case False
  have "ToInt32 d = Some 0" unfolding ToInt32_def using _ False
    by (rule ToIntWidth_not_finite) simp
  moreover have "ToInt64 d = Some 0" unfolding ToInt64_def using _ False
    by (rule ToIntWidth_not_finite) simp
  ultimately show ?thesis using False by simp
qed

text \<open>
  For every finite double whose truncated value is \<open>-1\<close>, neither conversion has a
  defined result.
\<close>

lemma ToInt32_ToInt64_undefined_at_minus_one:
  assumes "IsFinite d" and "sign_floor_abs (valof d) = - 1"
  shows "ToInt32 d = None \<and> ToInt64 d = None"
proof -
  have "ToInt32 d = None" unfolding ToInt32_def using _ assms
    by (rule ToIntWidth_minus_one) simp
  moreover have "ToInt64 d = None" unfolding ToInt64_def using _ assms
    by (rule ToIntWidth_minus_one) simp
  ultimately show ?thesis ..
qed

text \<open>
  Claim C9. For every double whose truncated value \<open>sign(d) * floor(|d|)\<close> lies in the
  int32 range, \<open>ToInt64(d)\<close> should equal \<open>ToInt32(d)\<close> as a mathematical integer. The
  double \<open>-1.0\<close> (\<open>0xBFF0000000000000\<close>) is finite with truncated value \<open>-1\<close>, inside
  the int32 range, and neither \<open>ToInt32\<close> nor \<open>ToInt64\<close> has a defined result there:
  both run into the signed overflow of \<open>ToIntWidth\<close> at the all-ones pattern.
\<close>

theorem ToInt32_ToInt64_at_minus_one:
  "IsFinite 0xBFF0000000000000 \<and>
   valof 0xBFF0000000000000 = - 1 \<and>
   sign_floor_abs (valof 0xBFF0000000000000) = - 1 \<and>
   - (2 ^ 31) \<le> sign_floor_abs (valof 0xBFF0000000000000) \<and>
   sign_floor_abs (valof 0xBFF0000000000000) \<le> 2 ^ 31 - 1 \<and>
   ToInt32 0xBFF0000000000000 = None \<and>
   ToInt64 0xBFF0000000000000 = None"
proof -
  have f: "IsFinite 0xBFF0000000000000" by (simp add: IsFinite_def ExponentBits_def)
  have v: "valof 0xBFF0000000000000 = - 1" by (simp add: value_defs)
  have t: "sign_floor_abs (valof 0xBFF0000000000000) = - 1"
    unfolding v by (simp add: sign_floor_abs_def)
  have "ToInt32 0xBFF0000000000000 = None \<and> ToInt64 0xBFF0000000000000 = None"
    using f t by (rule ToInt32_ToInt64_undefined_at_minus_one)
  then show ?thesis using f v t by simp
qed

section \<open>ToInteger truncates towards zero\<close>

subsection \<open>The fields of a double determine it\<close>

lemma hi_fields:
  fixes s E :: nat
  shows "s * 2 ^ 63 + E * 2 ^ 52 = (s * 2 ^ 11 + E) * 2 ^ 52"
proof -
  have "(2::nat) ^ 63 = 2 ^ 11 * 2 ^ 52" by (simp only: power_add [symmetric]) simp
  then show ?thesis by (simp only: distrib_right mult.assoc)
qed

lemma fields_of_unat:
  fixes x :: double and s E m :: nat
  assumes x: "unat x = s * 2 ^ 63 + E * 2 ^ 52 + m"
    and s: "s < 2" and E: "E < 2 ^ 11" and m: "m < 2 ^ 52"
  shows "sign_bit x \<longleftrightarrow> s = 1" and "biased_exponent x = E" and "significand x = m"
proof -
  define P :: nat where "P = 2 ^ 52"
  define Q :: nat where "Q = 2 ^ 11"
  have n: "unat x = (s * Q + E) * P + m"
    unfolding x hi_fields P_def Q_def ..
  have mP: "m < P" and EQ: "E < Q" using m E unfolding P_def Q_def .
  have d52: "unat x div P = s * Q + E"
    unfolding n using mP by simp
  have "unat x mod P = m" unfolding n using mP by simp
  then show "significand x = m"
    unfolding significand_nat P_def .
  have "(unat x div P) mod Q = E" unfolding d52 using EQ by simp
  then show "biased_exponent x = E"
    unfolding biased_exponent_nat P_def Q_def .
  have "(2::nat) ^ 63 = P * Q" unfolding P_def Q_def by (simp only: power_add [symmetric]) simp
  then have "unat x div 2 ^ 63 = unat x div P div Q"
    by (simp only: div_mult2_eq)
  also have "\<dots> = s" unfolding d52 using EQ by simp
  finally show "sign_bit x \<longleftrightarrow> s = 1" unfolding sign_bit_nat by simp
qed

lemma and_exp_if:
  fixes a :: "'a::len word"
  shows "a AND 2 ^ n = (if bit a n then 2 ^ n else 0)"
  by (rule bit_eqI) (auto simp add: bit_simps)

lemma unat_sign_only: "unat (d AND SignBit) = (if sign_bit d then 2 ^ 63 else 0)"
proof -
  have "d AND 2 ^ 63 = (if bit d 63 then 2 ^ 63 else 0)" by (rule and_exp_if)
  then have "d AND SignBit = (if sign_bit d then 2 ^ 63 else 0)"
    unfolding sign_bit_bit by (simp add: SignBit_def)
  then show ?thesis by simp
qed

subsection \<open>Clearing the fraction bits\<close>

lemma unat_clear_low:
  fixes d :: double
  assumes "j \<le> 52"
  shows "unat (d AND NOT (mask j)) = (unat d div 2 ^ j) * 2 ^ j"
proof -
  have "d AND NOT (mask j) = push_bit j (drop_bit j d)"
    by (rule bit_eqI) (auto simp add: bit_simps)
  then have "unat (d AND NOT (mask j)) = unat (push_bit j (drop_bit j d))"
    by (rule arg_cong)
  also have "\<dots> = take_bit 64 (push_bit j (unat (drop_bit j d)))"
    by (simp only: unsigned_push_bit_eq) simp
  also have "\<dots> = take_bit 64 (push_bit j (drop_bit j (unat d)))"
    by (simp only: unat_drop_bit_eq)
  also have "\<dots> = ((unat d div 2 ^ j) * 2 ^ j) mod 2 ^ 64"
    by (simp only: take_bit_eq_mod push_bit_eq_mult drop_bit_eq_div)
  also have "\<dots> = (unat d div 2 ^ j) * 2 ^ j"
  proof -
    have "(unat d div 2 ^ j) * 2 ^ j \<le> unat d" by simp
    also have "unat d < 2 ^ 64" using unsigned_less [of d] by simp
    finally show ?thesis by simp
  qed
  finally show ?thesis .
qed

lemma clear_low_fields:
  fixes s E m j :: nat
  assumes "j \<le> 52"
  shows "((s * 2 ^ 63 + E * 2 ^ 52 + m) div 2 ^ j) * 2 ^ j =
         s * 2 ^ 63 + E * 2 ^ 52 + (m div 2 ^ j) * 2 ^ j"
proof -
  define H where "H = s * 2 ^ 11 + E"
  have n: "s * 2 ^ 63 + E * 2 ^ 52 = H * 2 ^ 52"
    unfolding H_def by (rule hi_fields)
  have e: "52 - j \<le> 52" "52 - (52 - j) = j" using assms by simp_all
  have "(H * 2 ^ 52 + m) div 2 ^ (52 - (52 - j)) = H * 2 ^ (52 - j) + m div 2 ^ (52 - (52 - j))"
    using e(1) by (rule align_right)
  then have "(H * 2 ^ 52 + m) div 2 ^ j = H * 2 ^ (52 - j) + m div 2 ^ j"
    unfolding e(2) .
  then have "((H * 2 ^ 52 + m) div 2 ^ j) * 2 ^ j = H * (2 ^ (52 - j) * 2 ^ j) + (m div 2 ^ j) * 2 ^ j"
    by (simp only: distrib_right mult.assoc)
  also have "(2::nat) ^ (52 - j) * 2 ^ j = 2 ^ 52"
    using assms by (intro pow2_split(2) [symmetric])
  finally show ?thesis unfolding n .
qed


lemma unat_fields':
  "unat d = (if sign_bit d then 1 else 0) * 2 ^ 63 + biased_exponent d * 2 ^ 52 + significand d"
  using unat_fields [of d] by (cases "sign_bit d") simp_all

lemma trunc_bits_unat:
  "unat (trunc_bits d) =
     (if sign_bit d then 1 else 0) * 2 ^ 63 +
     (if biased_exponent d < 1023 then 0 else biased_exponent d) * 2 ^ 52 +
     (if biased_exponent d < 1023 then 0
      else if 1075 \<le> biased_exponent d then significand d
      else (significand d div 2 ^ (1075 - biased_exponent d)) * 2 ^ (1075 - biased_exponent d))"
proof -
  consider (small) "biased_exponent d < 1023"
    | (big) "1075 \<le> biased_exponent d"
    | (mid) "1023 \<le> biased_exponent d" "biased_exponent d < 1075"
    by linarith
  then show ?thesis
  proof cases
    case small
    then have "trunc_bits d = d AND SignBit" unfolding trunc_bits_def by simp
    then show ?thesis using small unat_sign_only [of d] by simp
  next
    case big
    then have "trunc_bits d = d" unfolding trunc_bits_def by simp
    then show ?thesis using big unat_fields' [of d] by simp
  next
    case mid
    define j where "j = 1075 - biased_exponent d"
    have j: "j \<le> 52" using mid unfolding j_def by simp
    have "trunc_bits d = d AND NOT (mask j)"
      using mid unfolding trunc_bits_def j_def by simp
    then have "unat (trunc_bits d) = (unat d div 2 ^ j) * 2 ^ j"
      using unat_clear_low [OF j, of d] by simp
    also have "\<dots> = (if sign_bit d then 1 else 0) * 2 ^ 63 + biased_exponent d * 2 ^ 52 +
        (significand d div 2 ^ j) * 2 ^ j"
      unfolding unat_fields' [of d] using j by (rule clear_low_fields)
    finally show ?thesis using mid unfolding j_def by simp
  qed
qed

lemma trunc_bits_fields:
  shows trunc_bits_sign: "sign_bit (trunc_bits d) \<longleftrightarrow> sign_bit d"
    and trunc_bits_exponent:
      "biased_exponent (trunc_bits d) = (if biased_exponent d < 1023 then 0 else biased_exponent d)"
    and trunc_bits_significand:
      "significand (trunc_bits d) =
         (if biased_exponent d < 1023 then 0
          else if 1075 \<le> biased_exponent d then significand d
          else (significand d div 2 ^ (1075 - biased_exponent d)) * 2 ^ (1075 - biased_exponent d))"
proof -
  define s :: nat where "s = (if sign_bit d then 1 else 0)"
  define E where "E = (if biased_exponent d < 1023 then 0 else biased_exponent d)"
  define m where "m = (if biased_exponent d < 1023 then 0
          else if 1075 \<le> biased_exponent d then significand d
          else (significand d div 2 ^ (1075 - biased_exponent d)) * 2 ^ (1075 - biased_exponent d))"
  have u: "unat (trunc_bits d) = s * 2 ^ 63 + E * 2 ^ 52 + m"
    unfolding s_def E_def m_def by (rule trunc_bits_unat)
  have s: "s < 2" unfolding s_def by simp
  have E: "E < 2 ^ 11" using biased_exponent_less [of d] unfolding E_def by simp
  have "(significand d div 2 ^ (1075 - biased_exponent d)) * 2 ^ (1075 - biased_exponent d)
        \<le> significand d" by simp
  then have "m \<le> significand d" unfolding m_def by simp
  then have m: "m < 2 ^ 52" using significand_less [of d] by (rule le_less_trans)
  show "sign_bit (trunc_bits d) \<longleftrightarrow> sign_bit d"
    using fields_of_unat(1) [OF u s E m] unfolding s_def by simp
  show "biased_exponent (trunc_bits d) = (if biased_exponent d < 1023 then 0 else biased_exponent d)"
    using fields_of_unat(2) [OF u s E m] unfolding E_def .
  show "significand (trunc_bits d) =
         (if biased_exponent d < 1023 then 0
          else if 1075 \<le> biased_exponent d then significand d
          else (significand d div 2 ^ (1075 - biased_exponent d)) * 2 ^ (1075 - biased_exponent d))"
    using fields_of_unat(3) [OF u s E m] unfolding m_def .
qed

lemma fields_eqI:
  fixes x y :: double
  assumes "sign_bit x \<longleftrightarrow> sign_bit y" "biased_exponent x = biased_exponent y"
    "significand x = significand y"
  shows "x = y"
proof -
  have "unat x = unat y" unfolding unat_fields' using assms by simp
  then show ?thesis by (simp only: word_unat_eq_iff)
qed

lemma trunc_bits_idem: "trunc_bits (trunc_bits d) = trunc_bits d"
proof (rule fields_eqI)
  show "sign_bit (trunc_bits (trunc_bits d)) \<longleftrightarrow> sign_bit (trunc_bits d)"
    by (rule trunc_bits_sign)
  show "biased_exponent (trunc_bits (trunc_bits d)) = biased_exponent (trunc_bits d)"
    unfolding trunc_bits_exponent by simp
  show "significand (trunc_bits (trunc_bits d)) = significand (trunc_bits d)"
    unfolding trunc_bits_significand [of "trunc_bits d"] trunc_bits_exponent
    unfolding trunc_bits_significand by simp
qed

lemma trunc_bits_finite: "IsFinite d \<Longrightarrow> IsFinite (trunc_bits d)"
  unfolding IsFinite_iff trunc_bits_exponent by simp


subsection \<open>The value after clearing the fraction bits\<close>

lemma valof_integral:
  fixes T :: nat
  assumes "(if biased_exponent x = 0 then significand x else 2 ^ 52 + significand x) *
           2 ^ max (biased_exponent x) 1 = T * 2 ^ 1075"
  shows "valof x = (if sign_bit x then - 1 else 1) * real T"
proof -
  define D :: nat where "D = 2 ^ 1075"
  have D: "real D \<noteq> 0" "(2::real) ^ 1075 = real D" unfolding D_def by simp_all
  have "real (T * D) / real D = real T * real D / real D" by (simp only: of_nat_mult)
  also have "\<dots> = real T" using D(1) by (rule nonzero_mult_div_cancel_right)
  finally have "real (T * D) / real D = real T" .
  then show ?thesis unfolding valof_def assms D(2) unfolding D_def [symmetric]
    by (simp only: times_divide_eq_right [symmetric])
qed

lemma trunc_numerator:
  fixes m E :: nat
  assumes lo: "1023 \<le> E"
  defines "m' \<equiv> (if 1075 \<le> E then m else (m div 2 ^ (1075 - E)) * 2 ^ (1075 - E))"
  shows "(2 ^ 52 + m') * 2 ^ E = ((2 ^ 52 + m) * 2 ^ (E - 1023) div 2 ^ 52) * 2 ^ 1075"
proof (cases "1075 \<le> E")
  case True
  define k where "k = E - 1075"
  have k: "E - 1023 - 52 = k" "52 \<le> E - 1023" using True unfolding k_def by simp_all
  have a: "(2::nat) ^ E = 2 ^ k * 2 ^ 1075"
    unfolding k_def using True by (rule pow2_split)
  have "(2::nat) ^ (E - 1023) = 2 ^ (E - 1023 - 52) * 2 ^ 52"
    using k(2) by (rule pow2_split)
  then have "(2 ^ 52 + m) * 2 ^ (E - 1023) = ((2 ^ 52 + m) * 2 ^ k) * 2 ^ 52"
    unfolding k(1) by (simp only: mult.assoc)
  then have b: "(2 ^ 52 + m) * 2 ^ (E - 1023) div 2 ^ 52 = (2 ^ 52 + m) * 2 ^ k"
    by (simp only: nonzero_mult_div_cancel_right) simp
  show ?thesis using True unfolding m'_def b a by (simp only: if_True mult.assoc)
next
  case False
  define e where "e = E - 1023"
  define j where "j = 1075 - E"
  have e: "e \<le> 52" "j = 52 - e" "\<not> 52 < e" "j + E = 1075"
    using False lo unfolding e_def j_def by simp_all
  have T: "(2 ^ 52 + m) * 2 ^ e div 2 ^ 52 = 2 ^ e + m div 2 ^ j"
    unfolding aligned_value e(2) using e(3) by simp
  have "(2::nat) ^ 52 = 2 ^ e * 2 ^ j" unfolding e(2) using e(1) by (rule pow2_split)
  then have "(2 ^ 52 + (m div 2 ^ j) * 2 ^ j) * 2 ^ E = ((2 ^ e + m div 2 ^ j) * 2 ^ j) * 2 ^ E"
    by (simp only: distrib_right)
  also have "\<dots> = (2 ^ e + m div 2 ^ j) * (2 ^ j * 2 ^ E)"
    by (simp only: mult.assoc)
  also have "(2::nat) ^ j * 2 ^ E = 2 ^ 1075"
    unfolding e(4) [symmetric] by (simp only: power_add)
  finally have "(2 ^ 52 + (m div 2 ^ j) * 2 ^ j) * 2 ^ E =
      ((2 ^ 52 + m) * 2 ^ e div 2 ^ 52) * 2 ^ 1075"
    unfolding T .
  then show ?thesis using False unfolding m'_def j_def [symmetric] e_def [symmetric]
    by (simp only: if_False)
qed

lemma valof_trunc_bits: "valof (trunc_bits d) = of_int (sign_floor_abs (valof d))"
proof (cases "biased_exponent d < 1023")
  case True
  have "(if biased_exponent (trunc_bits d) = 0 then significand (trunc_bits d)
         else 2 ^ 52 + significand (trunc_bits d)) * 2 ^ max (biased_exponent (trunc_bits d)) 1
        = 0 * 2 ^ 1075"
    unfolding trunc_bits_exponent trunc_bits_significand using True by simp
  then have "valof (trunc_bits d) = (if sign_bit (trunc_bits d) then - 1 else 1) * real 0"
    by (rule valof_integral)
  then show ?thesis using True by (simp add: trunc_small)
next
  case False
  define E where "E = biased_exponent d"
  define m where "m = significand d"
  define T where "T = (2 ^ 52 + m) * 2 ^ (E - 1023) div 2 ^ 52"
  have lo: "1023 \<le> E" using False unfolding E_def by simp
  have f: "biased_exponent (trunc_bits d) = E" "biased_exponent (trunc_bits d) \<noteq> 0"
    "max (biased_exponent (trunc_bits d)) 1 = E"
    unfolding trunc_bits_exponent using False unfolding E_def by simp_all
  have g: "significand (trunc_bits d) =
        (if 1075 \<le> E then m else (m div 2 ^ (1075 - E)) * 2 ^ (1075 - E))"
    unfolding trunc_bits_significand using False unfolding E_def m_def by simp
  have "(if biased_exponent (trunc_bits d) = 0 then significand (trunc_bits d)
         else 2 ^ 52 + significand (trunc_bits d)) * 2 ^ max (biased_exponent (trunc_bits d)) 1
        = T * 2 ^ 1075"
    unfolding f(3) g T_def using f(2) lo by (simp only: if_False trunc_numerator)
  then have "valof (trunc_bits d) = (if sign_bit (trunc_bits d) then - 1 else 1) * real T"
    by (rule valof_integral)
  moreover have "sign_floor_abs (valof d) = (if sign_bit d then - 1 else 1) * int T"
    unfolding T_def E_def m_def using lo unfolding E_def by (rule trunc_normal)
  ultimately show ?thesis unfolding trunc_bits_sign by simp
qed


subsection \<open>Zeros, infinities, NaNs and the comparisons with zero\<close>

lemma unat_clear_sign: "unat (d AND NOT SignBit) = biased_exponent d * 2 ^ 52 + significand d"
proof -
  have "NOT SignBit = (mask 63 :: 64 word)"
    by (simp add: SignBit_def mask_eq_exp_minus_1)
  then have "unat (d AND NOT SignBit) = unat (take_bit 63 d)"
    by (simp only: take_bit_eq_mask)
  also have "\<dots> = take_bit 63 (unat d)" by (simp only: unsigned_take_bit_eq)
  also have "\<dots> = unat d mod 2 ^ 63" by (simp only: take_bit_eq_mod)
  also have "\<dots> = biased_exponent d * 2 ^ 52 + significand d"
  proof -
    define r where "r = biased_exponent d * 2 ^ 52 + significand d"
    have "biased_exponent d \<le> 2047" using biased_exponent_less [of d] by simp
    then have "biased_exponent d * 2 ^ 52 \<le> 2047 * 2 ^ 52" by (rule mult_le_mono1)
    then have "r < 2047 * 2 ^ 52 + 2 ^ 52"
      unfolding r_def using significand_less [of d] by (rule add_le_less_mono)
    also have "\<dots> = 2 ^ 63" by simp
    finally have r: "r < 2 ^ 63" .
    have "unat d = (if sign_bit d then 1 else 0) * 2 ^ 63 + r"
      unfolding r_def unat_fields' by (simp only: add.assoc)
    then have "unat d mod 2 ^ 63 = r mod 2 ^ 63"
      by (simp only: mod_mult_self3)
    then show ?thesis using r unfolding r_def by simp
  qed
  finally show ?thesis .
qed

lemma double_eq_zero_iff:
  "double_eq_zero d \<longleftrightarrow> biased_exponent d = 0 \<and> significand d = 0"
proof -
  have "double_eq_zero d \<longleftrightarrow> unat (d AND NOT SignBit) = 0"
    unfolding double_eq_zero_def by (simp only: unat_eq_0)
  then show ?thesis unfolding unat_clear_sign by simp
qed

lemma IsInfinite_iff:
  "IsInfinite d \<longleftrightarrow> biased_exponent d = 2047 \<and> significand d = 0"
proof -
  have "unat ExponentBits = 2047 * 2 ^ 52" by (simp add: ExponentBits_def)
  then have "IsInfinite d \<longleftrightarrow> biased_exponent d * 2 ^ 52 + significand d = 2047 * 2 ^ 52"
    unfolding IsInfinite_def by (simp only: word_unat_eq_iff unat_clear_sign)
  also have "\<dots> \<longleftrightarrow> biased_exponent d = 2047 \<and> significand d = 0"
  proof
    assume a: "biased_exponent d * 2 ^ 52 + significand d = 2047 * 2 ^ 52"
    define P :: nat where "P = 2 ^ 52"
    have m: "significand d < P" unfolding P_def by (rule significand_less)
    from a have b: "biased_exponent d * P + significand d = 2047 * P" unfolding P_def .
    then have "(biased_exponent d * P + significand d) div P = 2047 * P div P" by simp
    then have "biased_exponent d = 2047" using m unfolding P_def by simp
    then show "biased_exponent d = 2047 \<and> significand d = 0" using b by simp
  qed simp
  finally show ?thesis .
qed

lemma IsNaN_iff:
  "IsNaN d \<longleftrightarrow> biased_exponent d = 2047 \<and> significand d \<noteq> 0"
proof -
  have "d AND SignificandBits \<noteq> 0 \<longleftrightarrow> significand d \<noteq> 0"
    unfolding significand_def by (simp only: unat_eq_0)
  then show ?thesis using IsFinite_iff [of d] unfolding IsNaN_def IsFinite_def by simp
qed

lemma finite_not_NaN: "IsFinite d \<Longrightarrow> \<not> IsNaN d"
  unfolding IsNaN_def IsFinite_def by simp

lemma valof_zero_iff: "valof d = 0 \<longleftrightarrow> double_eq_zero d"
proof -
  define N where "N = (if biased_exponent d = 0 then significand d else 2 ^ 52 + significand d) *
          2 ^ max (biased_exponent d) 1"
  define D :: real where "D = 2 ^ 1075"
  have D: "0 < D" unfolding D_def by simp
  have a: "\<bar>valof d\<bar> = real N / D" unfolding N_def D_def by (rule abs_valof)
  have "valof d = 0 \<longleftrightarrow> \<bar>valof d\<bar> = 0" by simp
  also have "\<dots> \<longleftrightarrow> N = 0" unfolding a using D by simp
  also have "\<dots> \<longleftrightarrow> biased_exponent d = 0 \<and> significand d = 0"
    unfolding N_def by simp
  finally show ?thesis unfolding double_eq_zero_iff .
qed

lemma valof_sign:
  "valof d = (if sign_bit d then - \<bar>valof d\<bar> else \<bar>valof d\<bar>)"
proof -
  define N where "N = (if biased_exponent d = 0 then significand d else 2 ^ 52 + significand d) *
          2 ^ max (biased_exponent d) 1"
  define D :: real where "D = 2 ^ 1075"
  have a: "\<bar>valof d\<bar> = real N / D" unfolding N_def D_def by (rule abs_valof)
  have "valof d = (if sign_bit d then - 1 else 1) * (real N / D)"
    unfolding valof_def N_def D_def by (simp only: times_divide_eq_right)
  then show ?thesis unfolding a by simp
qed

lemma valof_neg_iff: "valof d < 0 \<longleftrightarrow> sign_bit d \<and> \<not> double_eq_zero d"
proof (cases "sign_bit d")
  case True
  then have "valof d = - \<bar>valof d\<bar>" using valof_sign [of d] by simp
  then have "valof d < 0 \<longleftrightarrow> valof d \<noteq> 0" by linarith
  then show ?thesis using True unfolding valof_zero_iff by simp
next
  case False
  then have "valof d = \<bar>valof d\<bar>" using valof_sign [of d] by simp
  then have "\<not> valof d < 0" by linarith
  then show ?thesis using False by simp
qed

lemma double_lt_zero_iff: "IsFinite d \<Longrightarrow> double_lt_zero d \<longleftrightarrow> valof d < 0"
  unfolding double_lt_zero_def valof_neg_iff IsNaN_iff IsFinite_iff by simp

subsection \<open>The model of floor and ceil computes the real floor and ceiling\<close>

text \<open>
  On every finite double, \<open>floor_double\<close> and \<open>ceil_double\<close> return the finite double
  whose value is the floor, respectively the ceiling, of the value of the argument, with
  the sign bit of the argument. This is what IEC 60559 asks of \<open>floor\<close> and \<open>ceil\<close>.
\<close>

lemma sign_floor_abs_floor_ceiling:
  "sign_floor_abs x = (if x < 0 then \<lceil>x\<rceil> else \<lfloor>x\<rfloor>)"
  unfolding sign_floor_abs_def ceiling_def by simp

lemma floor_abs_valof:
  "\<lfloor>\<bar>valof d\<bar>\<rfloor> =
     (if biased_exponent d < 1023 then 0
      else int ((2 ^ 52 + significand d) * 2 ^ (biased_exponent d - 1023) div 2 ^ 52))"
proof -
  have "sign_floor_abs (valof d) = (if valof d < 0 then - 1 else 1) * \<lfloor>\<bar>valof d\<bar>\<rfloor>"
    by (rule sign_floor_abs_def)
  show ?thesis
  proof (cases "biased_exponent d < 1023")
    case True
    then have "sign_floor_abs (valof d) = 0" by (rule trunc_small)
    then have "\<lfloor>\<bar>valof d\<bar>\<rfloor> = 0" unfolding sign_floor_abs_def by (simp split: if_splits)
    then show ?thesis using True by simp
  next
    case False
    define T where "T = (2 ^ 52 + significand d) * 2 ^ (biased_exponent d - 1023) div 2 ^ 52"
    have "1023 \<le> biased_exponent d" using False by simp
    then have t: "sign_floor_abs (valof d) = (if sign_bit d then - 1 else 1) * int T"
      unfolding T_def by (rule trunc_normal)
    have "\<bar>sign_floor_abs (valof d)\<bar> = \<lfloor>\<bar>valof d\<bar>\<rfloor>"
      unfolding sign_floor_abs_def by (simp add: abs_mult)
    moreover have "\<bar>sign_floor_abs (valof d)\<bar> = int T"
      unfolding t by (simp add: abs_mult)
    ultimately have "\<lfloor>\<bar>valof d\<bar>\<rfloor> = int T" by simp
    then show ?thesis using False unfolding T_def by simp
  qed
qed

lemma numerator_eq:
  assumes "\<bar>valof x\<bar> = \<bar>valof y\<bar>"
  shows "(if biased_exponent x = 0 then significand x else 2 ^ 52 + significand x) *
           2 ^ max (biased_exponent x) 1 =
         (if biased_exponent y = 0 then significand y else 2 ^ 52 + significand y) *
           2 ^ max (biased_exponent y) 1"
proof -
  define Nx where "Nx = (if biased_exponent x = 0 then significand x else 2 ^ 52 + significand x) *
           2 ^ max (biased_exponent x) 1"
  define Ny where "Ny = (if biased_exponent y = 0 then significand y else 2 ^ 52 + significand y) *
           2 ^ max (biased_exponent y) 1"
  define D :: real where "D = 2 ^ 1075"
  have D: "D \<noteq> 0" unfolding D_def by simp
  have "real Nx / D = real Ny / D"
    using assms unfolding abs_valof Nx_def Ny_def D_def .
  then have "real Nx = real Ny" using D by simp
  then have "Nx = Ny" by simp
  then show ?thesis unfolding Nx_def Ny_def .
qed

lemma trunc_bits_fixed_iff: "trunc_bits d = d \<longleftrightarrow> valof (trunc_bits d) = valof d"
proof
  assume "trunc_bits d = d"
  then show "valof (trunc_bits d) = valof d" by simp
next
  assume v: "valof (trunc_bits d) = valof d"
  consider (small) "biased_exponent d < 1023"
    | (big) "1075 \<le> biased_exponent d"
    | (mid) "1023 \<le> biased_exponent d" "biased_exponent d < 1075"
    by linarith
  then show "trunc_bits d = d"
  proof cases
    case small
    then have "biased_exponent (trunc_bits d) = 0" "significand (trunc_bits d) = 0"
      unfolding trunc_bits_exponent trunc_bits_significand by simp_all
    then have "double_eq_zero (trunc_bits d)" unfolding double_eq_zero_iff by simp
    then have "valof d = 0" unfolding valof_zero_iff [symmetric] v .
    then have "biased_exponent d = 0" "significand d = 0"
      unfolding valof_zero_iff double_eq_zero_iff by simp_all
    then show ?thesis
      by (intro fields_eqI) (simp_all add: trunc_bits_sign trunc_bits_exponent trunc_bits_significand)
  next
    case big
    then show ?thesis unfolding trunc_bits_def by simp
  next
    case mid
    have E: "biased_exponent (trunc_bits d) = biased_exponent d"
      unfolding trunc_bits_exponent using mid by simp
    have nz: "(biased_exponent d = 0) = False" "max (biased_exponent d) 1 = biased_exponent d"
      using mid by simp_all
    from v have "\<bar>valof (trunc_bits d)\<bar> = \<bar>valof d\<bar>" by simp
    then have "(2 ^ 52 + significand (trunc_bits d)) * 2 ^ biased_exponent d =
        (2 ^ 52 + significand d) * 2 ^ biased_exponent d"
      using numerator_eq [of "trunc_bits d" d] unfolding E nz by simp
    then have "significand (trunc_bits d) = significand d" by simp
    then show ?thesis using E by (intro fields_eqI) (simp_all add: trunc_bits_sign)
  qed
qed


lemma round_away_small:
  assumes "biased_exponent d < 1023"
  shows "(sign_bit (round_away d) \<longleftrightarrow> sign_bit d) \<and> biased_exponent (round_away d) = 1023 \<and>
         valof (round_away d) = (if sign_bit d then - 1 else 1)"
proof -
  have "d AND 2 ^ 63 = (if bit d 63 then 2 ^ 63 else 0)" by (rule and_exp_if)
  then have a: "d AND SignBit = (if sign_bit d then SignBit else 0)"
    unfolding sign_bit_bit by (simp add: SignBit_def)
  have r: "round_away d = (if sign_bit d then 0xBFF0000000000000 else 0x3FF0000000000000)"
    using assms unfolding round_away_def a by (simp add: SignBit_def)
  have "sign_bit 0xBFF0000000000000" "\<not> sign_bit 0x3FF0000000000000"
    "biased_exponent 0xBFF0000000000000 = 1023" "biased_exponent 0x3FF0000000000000 = 1023"
    "valof 0xBFF0000000000000 = - 1" "valof 0x3FF0000000000000 = 1"
    by (simp_all add: value_defs)
  then show ?thesis unfolding r by simp
qed

lemma round_away_unat:
  fixes d :: double
  defines "E \<equiv> biased_exponent d"
  defines "j \<equiv> 1075 - E"
  assumes mid: "1023 \<le> E" "E < 1075"
  shows "unat (round_away d) =
     (if sign_bit d then 1 else 0) * 2 ^ 63 + E * 2 ^ 52 + (significand d div 2 ^ j + 1) * 2 ^ j"
    and "(significand d div 2 ^ j + 1) * 2 ^ j \<le> 2 ^ 52"
proof -
  define q where "q = significand d div 2 ^ j"
  define s :: nat where "s = (if sign_bit d then 1 else 0)"
  have j: "j \<le> 52" "0 < j" using mid unfolding j_def by simp_all
  have p: "(2::nat) ^ 52 = 2 ^ (52 - j) * 2 ^ j" using j(1) by (rule pow2_split)
  have "significand d < 2 ^ (52 - j) * 2 ^ j" using significand_less [of d] unfolding p .
  then have "q < 2 ^ (52 - j)" unfolding q_def by (simp only: less_mult_imp_div_less)
  then have "q + 1 \<le> 2 ^ (52 - j)" by simp
  then have "(q + 1) * 2 ^ j \<le> 2 ^ (52 - j) * 2 ^ j" by (rule mult_le_mono1)
  then show b: "(significand d div 2 ^ j + 1) * 2 ^ j \<le> 2 ^ 52"
    unfolding p [symmetric] q_def .
  have t: "unat (trunc_bits d) = s * 2 ^ 63 + E * 2 ^ 52 + q * 2 ^ j"
    unfolding trunc_bits_unat s_def q_def j_def E_def using mid unfolding E_def by simp
  have one: "unat (push_bit j (1 :: 64 word)) = 2 ^ j"
  proof -
    have "unat (push_bit j (1 :: 64 word)) = take_bit 64 (push_bit j (unat (1 :: 64 word)))"
      by (simp only: unsigned_push_bit_eq) simp
    also have "\<dots> = 2 ^ j mod 2 ^ 64"
      by (simp only: take_bit_eq_mod push_bit_eq_mult unsigned_1 mult_1)
    also have "\<dots> = 2 ^ j"
    proof -
      have "j < 64" using j(1) by simp
      then have "(2::nat) ^ j < 2 ^ 64" by (intro power_strict_increasing) simp_all
      then show ?thesis by (rule mod_less)
    qed
    finally show ?thesis .
  qed
  have sum: "unat (trunc_bits d) + unat (push_bit j (1 :: 64 word)) =
      s * 2 ^ 63 + E * 2 ^ 52 + (q + 1) * 2 ^ j"
    unfolding t one by (simp add: algebra_simps)
  have "s * 2 ^ 63 \<le> 1 * 2 ^ 63" unfolding s_def by simp
  moreover have "E * 2 ^ 52 \<le> 1074 * 2 ^ 52" using mid(2) by (intro mult_le_mono1) simp
  ultimately have "s * 2 ^ 63 + E * 2 ^ 52 + (q + 1) * 2 ^ j \<le> 1 * 2 ^ 63 + 1074 * 2 ^ 52 + 2 ^ 52"
    using b unfolding q_def by (intro add_mono)
  also have "\<dots> < 2 ^ 64" by simp
  finally have "unat (trunc_bits d) + unat (push_bit j (1 :: 64 word)) < 2 ^ LENGTH(64)"
    unfolding sum by simp
  then have "unat (trunc_bits d + push_bit j 1) =
      unat (trunc_bits d) + unat (push_bit j (1 :: 64 word))"
    by (simp only: unat_add_lem)
  moreover have "round_away d = trunc_bits d + push_bit j 1"
    using mid unfolding round_away_def j_def E_def by simp
  ultimately show "unat (round_away d) =
     (if sign_bit d then 1 else 0) * 2 ^ 63 + E * 2 ^ 52 + (significand d div 2 ^ j + 1) * 2 ^ j"
    unfolding sum s_def q_def by simp
qed


lemma round_numerator:
  fixes q j E :: nat
  assumes j: "j \<le> 52" and jE: "j + E = 1075"
  shows "(2 ^ 52 + (q + 1) * 2 ^ j) * 2 ^ E = (2 ^ (52 - j) + q + 1) * 2 ^ 1075"
proof -
  have "(2::nat) ^ 52 = 2 ^ (52 - j) * 2 ^ j" using j by (rule pow2_split)
  then have "(2 ^ 52 + (q + 1) * 2 ^ j) * 2 ^ E = ((2 ^ (52 - j) + (q + 1)) * 2 ^ j) * 2 ^ E"
    by (simp only: distrib_right)
  also have "\<dots> = (2 ^ (52 - j) + (q + 1)) * (2 ^ j * 2 ^ E)"
    by (simp only: mult.assoc)
  also have "(2::nat) ^ j * 2 ^ E = 2 ^ 1075"
    unfolding jE [symmetric] by (simp only: power_add)
  finally show ?thesis by (simp only: add.assoc)
qed

lemma round_away_mid:
  fixes d :: double
  defines "E \<equiv> biased_exponent d"
  assumes mid: "1023 \<le> E" "E < 1075"
  shows "(sign_bit (round_away d) \<longleftrightarrow> sign_bit d) \<and> biased_exponent (round_away d) \<le> 1075 \<and>
         valof (round_away d) =
           (if sign_bit d then - 1 else 1) *
           real ((2 ^ 52 + significand d) * 2 ^ (E - 1023) div 2 ^ 52 + 1)"
proof -
  define j where "j = 1075 - E"
  define q where "q = significand d div 2 ^ j"
  define s :: nat where "s = (if sign_bit d then 1 else 0)"
  have j: "j \<le> 52" "j + E = 1075" "52 - j = E - 1023" "\<not> 52 < E - 1023" "j = 52 - (E - 1023)"
    using mid unfolding j_def by simp_all
  have T: "(2 ^ 52 + significand d) * 2 ^ (E - 1023) div 2 ^ 52 + 1 = 2 ^ (52 - j) + q + 1"
    unfolding aligned_value q_def j(3) using j(4) unfolding j(5) [symmetric] by simp
  have u: "unat (round_away d) = s * 2 ^ 63 + E * 2 ^ 52 + (q + 1) * 2 ^ j"
    and b: "(q + 1) * 2 ^ j \<le> 2 ^ 52"
    unfolding s_def q_def j_def E_def
    using round_away_unat [of d] mid unfolding E_def by simp_all
  have s: "s < 2" unfolding s_def by simp
  have num: "(2 ^ 52 + (q + 1) * 2 ^ j) * 2 ^ E = (2 ^ (52 - j) + q + 1) * 2 ^ 1075"
    using j(1,2) by (rule round_numerator)
  show ?thesis
  proof (cases "(q + 1) * 2 ^ j < 2 ^ 52")
    case True
    have E: "E < 2 ^ 11" using mid(2) by simp
    note f = fields_of_unat [OF u s E True]
    have nz: "(E = 0) = False" "max E 1 = E" using mid(1) by simp_all
    have "(if biased_exponent (round_away d) = 0 then significand (round_away d)
           else 2 ^ 52 + significand (round_away d)) * 2 ^ max (biased_exponent (round_away d)) 1
          = (2 ^ (52 - j) + q + 1) * 2 ^ 1075"
      unfolding f(2,3) nz if_False by (rule num)
    then have "valof (round_away d) =
        (if sign_bit (round_away d) then - 1 else 1) * real (2 ^ (52 - j) + q + 1)"
      by (rule valof_integral)
    moreover have "sign_bit (round_away d) \<longleftrightarrow> sign_bit d" using f(1) unfolding s_def by simp
    moreover have "biased_exponent (round_away d) \<le> 1075" unfolding f(2) using mid(2) by simp
    ultimately show ?thesis unfolding T by simp
  next
    case False
    with b have c: "(q + 1) * 2 ^ j = 2 ^ 52" by simp
    have u': "unat (round_away d) = s * 2 ^ 63 + (E + 1) * 2 ^ 52 + 0"
      unfolding u c by (simp only: distrib_right mult_1 add.assoc add_0_right)
    have E: "E + 1 < 2 ^ 11" using mid(2) by simp
    have z: "(0::nat) < 2 ^ 52" by simp
    note f = fields_of_unat [OF u' s E z]
    have nz: "(E + 1 = 0) = False" "max (E + 1) 1 = E + 1" by simp_all
    have "(P + 0) * 2 ^ (E + 1) = (P + P) * 2 ^ E" for P :: nat
      by (simp add: algebra_simps)
    then have "((2::nat) ^ 52 + 0) * 2 ^ (E + 1) = (2 ^ 52 + 2 ^ 52) * 2 ^ E" .
    also have "\<dots> = (2 ^ (52 - j) + q + 1) * 2 ^ 1075"
      unfolding num [symmetric] c ..
    finally have "(if biased_exponent (round_away d) = 0 then significand (round_away d)
           else 2 ^ 52 + significand (round_away d)) * 2 ^ max (biased_exponent (round_away d)) 1
          = (2 ^ (52 - j) + q + 1) * 2 ^ 1075"
      unfolding f(2,3) nz if_False .
    then have "valof (round_away d) =
        (if sign_bit (round_away d) then - 1 else 1) * real (2 ^ (52 - j) + q + 1)"
      by (rule valof_integral)
    moreover have "sign_bit (round_away d) \<longleftrightarrow> sign_bit d" using f(1) unfolding s_def by simp
    moreover have "biased_exponent (round_away d) \<le> 1075" unfolding f(2) using mid(2) by simp
    ultimately show ?thesis unfolding T by simp
  qed
qed


lemma round_away_value:
  assumes "biased_exponent d < 1075"
  shows "(sign_bit (round_away d) \<longleftrightarrow> sign_bit d) \<and> IsFinite (round_away d) \<and>
         valof (round_away d) = (if sign_bit d then - 1 else 1) * (of_int \<lfloor>\<bar>valof d\<bar>\<rfloor> + 1)"
proof (cases "biased_exponent d < 1023")
  case True
  from round_away_small [OF True] show ?thesis
    unfolding IsFinite_iff floor_abs_valof using True by simp
next
  case False
  then have mid: "1023 \<le> biased_exponent d" by simp
  from round_away_mid [OF mid assms] show ?thesis
    unfolding IsFinite_iff floor_abs_valof using False by simp
qed

lemma non_integer_floor_ceiling:
  fixes x :: real
  assumes "x \<noteq> of_int (sign_floor_abs x)"
  shows "\<lceil>x\<rceil> = \<lfloor>x\<rfloor> + 1"
proof -
  have "x \<noteq> of_int \<lfloor>x\<rfloor>"
  proof
    assume a: "x = of_int \<lfloor>x\<rfloor>"
    then have "\<lceil>x\<rceil> = \<lfloor>x\<rfloor>" by (metis ceiling_of_int)
    then have "sign_floor_abs x = \<lfloor>x\<rfloor>" unfolding sign_floor_abs_floor_ceiling by simp
    with a assms show False by simp
  qed
  then show ?thesis by (simp add: ceiling_altdef)
qed

lemma floor_ceil_double_correct:
  assumes fin: "IsFinite d"
  shows floor_double_correct:
      "valof (floor_double d) = of_int \<lfloor>valof d\<rfloor> \<and>
       (sign_bit (floor_double d) \<longleftrightarrow> sign_bit d) \<and> IsFinite (floor_double d)"
    and ceil_double_correct:
      "valof (ceil_double d) = of_int \<lceil>valof d\<rceil> \<and>
       (sign_bit (ceil_double d) \<longleftrightarrow> sign_bit d) \<and> IsFinite (ceil_double d)"
proof -
  define x where "x = valof d"
  have nan: "\<not> IsNaN d" using fin by (rule finite_not_NaN)
  have t: "valof (trunc_bits d) = of_int (sign_floor_abs x)"
    unfolding x_def by (rule valof_trunc_bits)
  have both: "(valof (floor_double d) = of_int \<lfloor>x\<rfloor> \<and>
       (sign_bit (floor_double d) \<longleftrightarrow> sign_bit d) \<and> IsFinite (floor_double d)) \<and>
      (valof (ceil_double d) = of_int \<lceil>x\<rceil> \<and>
       (sign_bit (ceil_double d) \<longleftrightarrow> sign_bit d) \<and> IsFinite (ceil_double d))"
  proof (cases "trunc_bits d = d")
    case True
    then have fc: "floor_double d = d" "ceil_double d = d"
      using nan unfolding floor_double_def ceil_double_def by simp_all
    have "x = of_int (sign_floor_abs x)" using t unfolding True x_def .
    then have "x = of_int \<lfloor>x\<rfloor>" "x = of_int \<lceil>x\<rceil>"
      by (metis floor_of_int, metis ceiling_of_int)
    then show ?thesis unfolding fc x_def [symmetric] using fin by blast
  next
    case False
    have "trunc_bits d = d" if "1075 \<le> biased_exponent d"
      using that unfolding trunc_bits_def by simp
    with False have E: "biased_exponent d < 1075" by fastforce
    have "valof (trunc_bits d) \<noteq> x" using False unfolding trunc_bits_fixed_iff x_def .
    then have ni: "x \<noteq> of_int (sign_floor_abs x)" unfolding t by simp
    then have c: "\<lceil>x\<rceil> = \<lfloor>x\<rfloor> + 1" by (rule non_integer_floor_ceiling)
    have x0: "x \<noteq> 0" using ni unfolding sign_floor_abs_def by auto
    note r = round_away_value [OF E, folded x_def]
    have tf: "IsFinite (trunc_bits d)" using fin by (rule trunc_bits_finite)
    show ?thesis
    proof (cases "sign_bit d")
      case True
      then have neg: "x < 0" using x0 unfolding x_def valof_neg_iff valof_zero_iff by simp
      have fc: "floor_double d = round_away d" "ceil_double d = trunc_bits d"
        using fin nan False True unfolding floor_double_def ceil_double_def by simp_all
      have "\<lfloor>\<bar>x\<bar>\<rfloor> = - \<lceil>x\<rceil>" using neg by (simp add: ceiling_def)
      then have "valof (round_away d) = of_int \<lfloor>x\<rfloor>"
        using r True c by simp
      moreover have "valof (trunc_bits d) = of_int \<lceil>x\<rceil>"
        unfolding t sign_floor_abs_floor_ceiling using neg by simp
      ultimately show ?thesis unfolding fc using r tf by (simp add: trunc_bits_sign)
    next
      case pos: False
      then have nn: "\<not> x < 0" unfolding x_def valof_neg_iff by simp
      then have ax: "\<bar>x\<bar> = x" by simp
      have fc: "floor_double d = trunc_bits d" "ceil_double d = round_away d"
        using fin nan False pos unfolding floor_double_def ceil_double_def by simp_all
      have "valof (round_away d) = of_int \<lceil>x\<rceil>"
        using r pos c unfolding ax by simp
      moreover have "valof (trunc_bits d) = of_int \<lfloor>x\<rfloor>"
        unfolding t sign_floor_abs_floor_ceiling using nn by simp
      ultimately show ?thesis unfolding fc using r tf by (simp add: trunc_bits_sign)
    qed
  qed
  show "valof (floor_double d) = of_int \<lfloor>valof d\<rfloor> \<and>
       (sign_bit (floor_double d) \<longleftrightarrow> sign_bit d) \<and> IsFinite (floor_double d)"
    using both unfolding x_def by blast
  show "valof (ceil_double d) = of_int \<lceil>valof d\<rceil> \<and>
       (sign_bit (ceil_double d) \<longleftrightarrow> sign_bit d) \<and> IsFinite (ceil_double d)"
    using both unfolding x_def by blast
qed

subsection \<open>ToInteger on finite doubles\<close>

lemma ToInteger_zero: "double_eq_zero d \<Longrightarrow> ToInteger d = d"
  unfolding ToInteger_def by simp

lemma ToInteger_trunc:
  assumes fin: "IsFinite d" and nz: "\<not> double_eq_zero d"
  shows "ToInteger d = trunc_bits d"
proof (cases "double_lt_zero d")
  case True
  then have "sign_bit d" unfolding double_lt_zero_def by simp
  then have "ceil_double d = trunc_bits d"
    using fin finite_not_NaN [OF fin] unfolding ceil_double_def by auto
  then show ?thesis using fin nz True unfolding ToInteger_def by simp
next
  case False
  then have "\<not> sign_bit d"
    using fin nz unfolding double_lt_zero_def IsNaN_iff IsFinite_iff by simp
  then have "floor_double d = trunc_bits d"
    using fin finite_not_NaN [OF fin] unfolding floor_double_def by auto
  then show ?thesis using fin nz False unfolding ToInteger_def by simp
qed


text \<open>
  Claim C4, as amended. For every finite non-zero double \<open>d\<close>, \<open>ToInteger(d)\<close> is
  \<open>ceil(d)\<close> if \<open>d < 0\<close> and \<open>floor(d)\<close> otherwise, and its value is the real ceiling
  of the value of \<open>d\<close> in the first case and the real floor in the second: truncation
  towards zero. (The claim as written assigns \<open>floor\<close> to the negative and \<open>ceil\<close> to
  the other inputs; the counterexample below shows that this fails at \<open>-2.5\<close>.)
\<close>

theorem ToInteger_truncates:
  assumes "IsFinite d" and "\<not> double_eq_zero d"
  shows "ToInteger d = (if double_lt_zero d then ceil_double d else floor_double d) \<and>
         (double_lt_zero d \<longleftrightarrow> valof d < 0) \<and>
         valof (ToInteger d) = of_int (if valof d < 0 then \<lceil>valof d\<rceil> else \<lfloor>valof d\<rfloor>)"
proof -
  have "ToInteger d = (if double_lt_zero d then ceil_double d else floor_double d)"
    using assms unfolding ToInteger_def by simp
  moreover have "double_lt_zero d \<longleftrightarrow> valof d < 0"
    using assms(1) by (rule double_lt_zero_iff)
  moreover have "valof (ToInteger d) = of_int (sign_floor_abs (valof d))"
    unfolding ToInteger_trunc [OF assms] by (rule valof_trunc_bits)
  ultimately show ?thesis unfolding sign_floor_abs_floor_ceiling by simp
qed

theorem ToInteger_truncates_witness:
  "IsFinite 0xC004000000000000 \<and> \<not> double_eq_zero 0xC004000000000000 \<and>
   double_lt_zero 0xC004000000000000 \<and>
   ToInteger 0xC004000000000000 = ceil_double 0xC004000000000000 \<and>
   valof 0xC004000000000000 = - 5 / 2 \<and>
   valof (ToInteger 0xC004000000000000) = - 2"
proof -
  have f: "IsFinite 0xC004000000000000" by (simp add: IsFinite_def ExponentBits_def)
  have z: "\<not> double_eq_zero 0xC004000000000000"
    by (simp add: double_eq_zero_def SignBit_def)
  have v: "valof 0xC004000000000000 = - 5 / 2" by (simp add: value_defs)
  from ToInteger_truncates [OF f z]
  have a: "ToInteger 0xC004000000000000 =
        (if double_lt_zero 0xC004000000000000 then ceil_double 0xC004000000000000
         else floor_double 0xC004000000000000)"
    and b: "double_lt_zero 0xC004000000000000 \<longleftrightarrow> valof 0xC004000000000000 < 0"
    and c: "valof (ToInteger 0xC004000000000000) =
        of_int (if valof 0xC004000000000000 < 0 then \<lceil>valof 0xC004000000000000\<rceil>
                else \<lfloor>valof 0xC004000000000000\<rfloor>)"
    by blast+
  have lt: "double_lt_zero 0xC004000000000000" unfolding b v by simp
  have "valof (ToInteger 0xC004000000000000) = - 2" unfolding c v by simp
  moreover have "ToInteger 0xC004000000000000 = ceil_double 0xC004000000000000"
    using a lt by simp
  ultimately show ?thesis using f z lt v by blast
qed

text \<open>
  The double \<open>-2.5\<close> (\<open>0xC004000000000000\<close>) is finite, non-zero and negative;
  \<open>ToInteger\<close> maps it to \<open>-2.0\<close>, whereas its floor is \<open>-3.0\<close>
  (\<open>0xC008000000000000\<close>).
\<close>

theorem ToInteger_floor_if_negative_counterexample:
  "IsFinite 0xC004000000000000 \<and> \<not> double_eq_zero 0xC004000000000000 \<and>
   double_lt_zero 0xC004000000000000 \<and> valof 0xC004000000000000 < 0 \<and>
   ToInteger 0xC004000000000000 \<noteq> floor_double 0xC004000000000000 \<and>
   valof (ToInteger 0xC004000000000000) \<noteq> of_int \<lfloor>valof 0xC004000000000000\<rfloor>"
proof -
  have t: "ToInteger 0xC004000000000000 = 0xC000000000000000"
    by (simp add: integer_defs mask_eq_exp_minus_1)
  have fl: "floor_double 0xC004000000000000 = 0xC008000000000000"
    by (simp add: integer_defs mask_eq_exp_minus_1)
  have v: "valof 0xC004000000000000 = - 5 / 2" "valof 0xC000000000000000 = - 2"
    by (simp_all add: value_defs)
  have "IsFinite 0xC004000000000000" by (simp add: IsFinite_def ExponentBits_def)
  moreover have "\<not> double_eq_zero 0xC004000000000000"
    by (simp add: double_eq_zero_def SignBit_def)
  moreover have "double_lt_zero 0xC004000000000000"
    by (simp add: integer_defs)
  ultimately show ?thesis unfolding t fl v by simp
qed


subsection \<open>Special values\<close>

lemma zero_patterns: "double_eq_zero d \<longleftrightarrow> d = PositiveZero \<or> d = SignBit"
proof -
  have z: "unat (0 :: 64 word) = 0 * 2 ^ 63 + 0 * 2 ^ 52 + 0"
    "unat SignBit = 1 * 2 ^ 63 + 0 * 2 ^ 52 + 0"
    by (simp_all add: SignBit_def)
  have f0: "\<not> sign_bit 0" "biased_exponent 0 = 0" "significand 0 = 0"
    using fields_of_unat [OF z(1)] by simp_all
  have f1: "sign_bit SignBit" "biased_exponent SignBit = 0" "significand SignBit = 0"
    using fields_of_unat [OF z(2)] by simp_all
  show ?thesis
  proof
    assume "double_eq_zero d"
    then have d: "biased_exponent d = 0" "significand d = 0"
      unfolding double_eq_zero_iff by simp_all
    show "d = PositiveZero \<or> d = SignBit"
    proof (cases "sign_bit d")
      case True
      then have "d = SignBit" using d f1 by (intro fields_eqI) simp_all
      then show ?thesis ..
    next
      case False
      then have "d = 0" using d f0 by (intro fields_eqI) simp_all
      then show ?thesis unfolding PositiveZero_def ..
    qed
  next
    assume "d = PositiveZero \<or> d = SignBit"
    then show "double_eq_zero d"
      unfolding double_eq_zero_iff PositiveZero_def using f0 f1 by auto
  qed
qed

lemma infinity_patterns:
  "IsInfinite d \<longleftrightarrow> d = ExponentBits \<or> d = SignBit OR ExponentBits"
proof -
  have z: "unat ExponentBits = 0 * 2 ^ 63 + 2047 * 2 ^ 52 + 0"
    "unat (SignBit OR ExponentBits) = 1 * 2 ^ 63 + 2047 * 2 ^ 52 + 0"
    by (simp_all add: SignBit_def ExponentBits_def)
  have f0: "\<not> sign_bit ExponentBits" "biased_exponent ExponentBits = 2047"
    "significand ExponentBits = 0"
    using fields_of_unat [OF z(1)] by simp_all
  have f1: "sign_bit (SignBit OR ExponentBits)" "biased_exponent (SignBit OR ExponentBits) = 2047"
    "significand (SignBit OR ExponentBits) = 0"
    using fields_of_unat [OF z(2)] by simp_all
  show ?thesis
  proof
    assume "IsInfinite d"
    then have d: "biased_exponent d = 2047" "significand d = 0"
      unfolding IsInfinite_iff by simp_all
    show "d = ExponentBits \<or> d = SignBit OR ExponentBits"
    proof (cases "sign_bit d")
      case True
      then have "d = SignBit OR ExponentBits" using d f1 by (intro fields_eqI) simp_all
      then show ?thesis ..
    next
      case False
      then have "d = ExponentBits" using d f0 by (intro fields_eqI) simp_all
      then show ?thesis ..
    qed
  next
    assume "d = ExponentBits \<or> d = SignBit OR ExponentBits"
    then show "IsInfinite d"
      unfolding IsInfinite_iff using f0 f1 by auto
  qed
qed

text \<open>
  Claim C5. If \<open>d == 0\<close>, that is if \<open>d\<close> is \<open>+0.0\<close> or \<open>-0.0\<close>, \<open>ToInteger\<close> returns
  \<open>d\<close> unchanged, sign bit included; if \<open>d\<close> is a NaN it returns \<open>+0.0\<close>; if \<open>d\<close> is
  \<open>+Infinity\<close> or \<open>-Infinity\<close> it returns \<open>d\<close> unchanged.
\<close>

theorem ToInteger_special_values:
  "(double_eq_zero d \<longrightarrow> ToInteger d = d) \<and>
   (IsNaN d \<longrightarrow> ToInteger d = PositiveZero) \<and>
   (IsInfinite d \<longrightarrow> ToInteger d = d) \<and>
   (double_eq_zero d \<longleftrightarrow> d = PositiveZero \<or> d = SignBit) \<and>
   (IsInfinite d \<longleftrightarrow> d = ExponentBits \<or> d = SignBit OR ExponentBits) \<and>
   \<not> sign_bit PositiveZero"
proof -
  have "ToInteger d = d" if "double_eq_zero d"
    using that by (rule ToInteger_zero)
  moreover have "ToInteger d = PositiveZero" if "IsNaN d"
    using that unfolding ToInteger_def IsNaN_iff IsFinite_iff double_eq_zero_iff by simp
  moreover have "ToInteger d = d" if "IsInfinite d"
    using that unfolding ToInteger_def IsNaN_iff IsFinite_iff double_eq_zero_iff IsInfinite_iff
    by simp
  moreover have "\<not> sign_bit PositiveZero"
    by (simp add: sign_bit_def PositiveZero_def)
  ultimately show ?thesis using zero_patterns [of d] infinity_patterns [of d] by blast
qed

theorem ToInteger_special_values_witness:
  "double_eq_zero 0x8000000000000000 \<and> ToInteger 0x8000000000000000 = 0x8000000000000000 \<and>
   sign_bit (ToInteger 0x8000000000000000) \<and>
   IsNaN 0x7FF8000000000000 \<and> ToInteger 0x7FF8000000000000 = PositiveZero \<and>
   IsInfinite 0xFFF0000000000000 \<and> ToInteger 0xFFF0000000000000 = 0xFFF0000000000000"
proof -
  have z: "double_eq_zero 0x8000000000000000" by (simp add: double_eq_zero_def SignBit_def)
  have s: "sign_bit 0x8000000000000000" by (simp add: sign_bit_def SignBit_def)
  have n: "IsNaN 0x7FF8000000000000"
    by (simp add: IsNaN_def ExponentBits_def SignificandBits_def)
  have i: "IsInfinite 0xFFF0000000000000"
    by (simp add: IsInfinite_def ExponentBits_def SignBit_def)
  show ?thesis
    using z s n i
      ToInteger_special_values [of "0x8000000000000000"]
      ToInteger_special_values [of "0x7FF8000000000000"]
      ToInteger_special_values [of "0xFFF0000000000000"]
    by simp
qed

subsection \<open>Idempotence\<close>

lemma ToInteger_idem: "ToInteger (ToInteger d) = ToInteger d"
proof (cases "double_eq_zero d")
  case True
  then show ?thesis by (simp add: ToInteger_zero)
next
  case nz: False
  show ?thesis
  proof (cases "IsFinite d")
    case True
    then have t: "ToInteger d = trunc_bits d" using nz by (rule ToInteger_trunc)
    have fin: "IsFinite (trunc_bits d)" using True by (rule trunc_bits_finite)
    show ?thesis
    proof (cases "double_eq_zero (trunc_bits d)")
      case True
      then show ?thesis unfolding t by (rule ToInteger_zero)
    next
      case False
      with fin have "ToInteger (trunc_bits d) = trunc_bits (trunc_bits d)"
        by (rule ToInteger_trunc)
      then show ?thesis unfolding t trunc_bits_idem .
    qed
  next
    case False
    show ?thesis
    proof (cases "IsNaN d")
      case True
      then have "ToInteger d = PositiveZero" using nz False unfolding ToInteger_def by simp
      moreover have "double_eq_zero PositiveZero" unfolding zero_patterns by simp
      ultimately show ?thesis by (simp add: ToInteger_zero)
    next
      case nn: False
      then have "ToInteger d = d" using nz False unfolding ToInteger_def by simp
      then show ?thesis by simp
    qed
  qed
qed

text \<open>
  Claim C8. \<open>ToInteger\<close> is idempotent on every finite double:
  \<open>ToInteger(ToInteger(d)) = ToInteger(d)\<close>.
\<close>

theorem ToInteger_idempotent:
  assumes "IsFinite d"
  shows "ToInteger (ToInteger d) = ToInteger d"
  by (rule ToInteger_idem)

theorem ToInteger_idempotent_witness:
  "IsFinite 0xC00599999999999A \<and>
   ToInteger 0xC00599999999999A = 0xC000000000000000 \<and>
   ToInteger 0xC000000000000000 = 0xC000000000000000"
proof -
  have f: "IsFinite 0xC00599999999999A" by (simp add: IsFinite_def ExponentBits_def)
  have t: "ToInteger 0xC00599999999999A = 0xC000000000000000"
    by (simp add: integer_defs mask_eq_exp_minus_1)
  show ?thesis using f t ToInteger_idempotent [OF f] by simp
qed

subsection \<open>Negative fractions\<close>

text \<open>
  Claim C10. For every double strictly between \<open>-1\<close> and \<open>0\<close>, \<open>ToInteger\<close> takes the
  \<open>ceil\<close> branch and returns negative zero: the zero whose sign bit is set
  (\<open>0x8000000000000000\<close>), not \<open>+0.0\<close>.
\<close>

theorem ToInteger_negative_fraction:
  assumes fin: "IsFinite d" and lo: "- 1 < valof d" and hi: "valof d < 0"
  shows "double_lt_zero d \<and> ToInteger d = ceil_double d \<and> ToInteger d = SignBit \<and>
         sign_bit (ToInteger d) \<and> double_eq_zero (ToInteger d) \<and>
         ToInteger d \<noteq> PositiveZero"
proof -
  have s: "sign_bit d" and nz: "\<not> double_eq_zero d" using hi unfolding valof_neg_iff by simp_all
  have lt: "double_lt_zero d" using hi double_lt_zero_iff [OF fin] by simp
  have "\<bar>valof d\<bar> < 1" using lo hi by simp
  then have E: "biased_exponent d < 1023" unfolding abs_valof_less_1_iff .
  have "ToInteger d = ceil_double d" using fin nz lt unfolding ToInteger_def by simp
  moreover have "ToInteger d = trunc_bits d" using fin nz by (rule ToInteger_trunc)
  moreover have "trunc_bits d = d AND SignBit" using E unfolding trunc_bits_def by simp
  moreover have "d AND SignBit = SignBit"
  proof -
    have "d AND 2 ^ 63 = (if bit d 63 then 2 ^ 63 else 0)" by (rule and_exp_if)
    then show ?thesis using s unfolding sign_bit_bit by (simp add: SignBit_def)
  qed
  moreover have "sign_bit SignBit" "double_eq_zero SignBit" "SignBit \<noteq> PositiveZero"
    by (simp_all add: sign_bit_def double_eq_zero_def SignBit_def PositiveZero_def)
  ultimately show ?thesis using lt by simp
qed

theorem ToInteger_negative_fraction_witness:
  "IsFinite 0xBFE0000000000000 \<and> valof 0xBFE0000000000000 = - 1 / 2 \<and>
   ToInteger 0xBFE0000000000000 = 0x8000000000000000 \<and>
   sign_bit (ToInteger 0xBFE0000000000000)"
proof -
  have f: "IsFinite 0xBFE0000000000000" by (simp add: IsFinite_def ExponentBits_def)
  have v: "valof 0xBFE0000000000000 = - 1 / 2" by (simp add: value_defs)
  have "- 1 < valof 0xBFE0000000000000" "valof 0xBFE0000000000000 < 0"
    unfolding v by simp_all
  from ToInteger_negative_fraction [OF f this]
  have "ToInteger 0xBFE0000000000000 = SignBit" "sign_bit (ToInteger 0xBFE0000000000000)"
    by blast+
  then show ?thesis using f v unfolding SignBit_def by blast
qed

end
